theory Spec2Isabelle
  imports Main
begin

section \<open>Data model of net/proxy/single\_threaded\_proxy\_resolver.cc\<close>

text \<open>
  The file implements \<^verbatim>\<open>SingleThreadedProxyResolver\<close>: a queue of \<^verbatim>\<open>Job\<close>s that are run
  one at a time on a lazily started worker thread (\<^verbatim>\<open>pac-thread\<close>), with the result of
  each posted back to the thread that submitted it.

  Pointers are modelled as follows. A \<^verbatim>\<open>Job*\<close> (and the \<^verbatim>\<open>RequestHandle\<close> it is cast to)
  is a natural number, the address of the job in the store \<open>jobs\<close>; address \<open>0\<close> is
  \<^verbatim>\<open>NULL\<close>. A \<^verbatim>\<open>CompletionCallback*\<close> and a \<^verbatim>\<open>ProxyInfo*\<close> held by a job are
  \<open>nat option\<close>, \<open>None\<close> being \<^verbatim>\<open>NULL\<close>. There is one resolver, so the job's
  \<^verbatim>\<open>coordinator_\<close> pointer is a boolean: \<open>True\<close> when it points at the resolver and
  \<open>False\<close> when it is \<^verbatim>\<open>NULL\<close>. The two message loops are lists of posted tasks, run
  from the front. Reference counting (\<^verbatim>\<open>AddRef\<close>/\<^verbatim>\<open>Release\<close>) is not modelled: a job
  stays in the store, and addresses are never reused.

  The two threads are interleaved: a run of the system is a sequence of calls of the
  public interface, turns of the worker's loop and turns of the origin loop, each of
  them atomic. A task of the worker reads and writes only what the job owns for it
  (\<^verbatim>\<open>url_\<close>, \<^verbatim>\<open>results_buf_\<close>) and the wrapped resolver, so a call made on the origin thread
  while the task runs has the effect it has just before or just after it.

  A failed \<^verbatim>\<open>DCHECK\<close>, the dereference of a null pointer and the use of a destroyed
  object are errors: the functions return \<open>error + state\<close>.
\<close>

type_synonym gurl = string
type_synonym proxy_info = string
type_synonym handle = nat

text \<open>
  Modelled from the spec: the constants \<^verbatim>\<open>OK\<close> and \<^verbatim>\<open>ERR_IO_PENDING\<close> of
  net/base/net\_errors.h, which is not under src/. \<^verbatim>\<open>OK\<close> is the least success code
  (non-negative codes are success), and the pending sentinel is a negative code.
\<close>

definition OK :: int where
  "OK = 0"

definition ERR_IO_PENDING :: int where
  "ERR_IO_PENDING = - 1"

text \<open>The fields of \<^verbatim>\<open>SingleThreadedProxyResolver::Job\<close> (the trailing underscore of the
  C++ member names is dropped; \<^verbatim>\<open>origin_loop_\<close> is the one origin loop of the state).\<close>

record job =
  coordinator :: bool
  callback :: "nat option"
  results :: "nat option"
  url :: gurl
  is_started :: bool
  results_buf :: proxy_info

text \<open>Tasks posted to the worker thread's message loop: \<^verbatim>\<open>Job::DoQuery\<close> of a job, or a
  \<^verbatim>\<open>SetPacScriptTask\<close> with its \<^verbatim>\<open>pac_url_\<close> and \<^verbatim>\<open>bytes_\<close>.\<close>

datatype worker_task = DoQuery handle | SetPacScriptTask gurl string

text \<open>Calls received by the wrapped synchronous \<^verbatim>\<open>ProxyResolver\<close>.\<close>

datatype engine_call = EngGetProxyForURL gurl | EngSetPacScriptByData string
  | EngSetPacScriptByUrl gurl

text \<open>Observable effects, in the order in which they happen.\<close>

datatype event =
    EvThreadStart
  | EvJobStart handle
  | EvJobCancel handle
  | EvRun worker_task
  | EvUse handle nat proxy_info
  | EvCallbackRun handle nat int
  | EvAdvance handle
  | EvThreadStop
  | EvResolverFree

text \<open>The failed checks (\<^verbatim>\<open>DCHECK(callback)\<close>, \<^verbatim>\<open>DCHECK(req)\<close>,
  \<^verbatim>\<open>DCHECK(it != pending_jobs_.end())\<close>, \<^verbatim>\<open>DCHECK_EQ(expected_job, front)\<close>,
  \<^verbatim>\<open>DCHECK_NE(rv, ERR_IO_PENDING)\<close>) and the undefined behaviours of the code.\<close>

datatype error =
    DCheckCallback
  | DCheckReq
  | DCheckFound
  | DCheckFront
  | DCheckNotPending
  | NullDeref
  | BadHandle
  | UseAfterFree

text \<open>The public interface, as a caller (or a completion callback) invokes it.\<close>

datatype api =
    CallGetProxyForURL gurl nat "nat option"
  | CallCancelRequest handle
  | CallSetPacScriptByUrl gurl
  | CallSetPacScriptByData string
  | CallDestroy

text \<open>
  The external collaborators. \<open>engine\<close> is the wrapped resolver's
  \<^verbatim>\<open>GetProxyForURL\<close>: given the calls it has received so far and a URL, it yields the
  result code and the contents it leaves in the buffer. \<open>on_complete c rv\<close> is what
  the caller's completion callback \<open>c\<close> does when run with code \<open>rv\<close>: a sequence
  of calls into the resolver's public interface.
\<close>

record world =
  engine :: "engine_call list \<Rightarrow> gurl \<Rightarrow> int \<times> proxy_info"
  expects_pac_bytes :: bool
  on_complete :: "nat \<Rightarrow> int \<Rightarrow> api list"

record state =
  jobs :: "handle \<Rightarrow> job option"
  next_handle :: handle
  pending_jobs :: "handle list"
  thread_started :: bool
  destroyed :: bool
  worker_loop :: "worker_task list"
  origin_loop :: "(handle \<times> int) list"
  memory :: "nat \<Rightarrow> proxy_info"
  engine_log :: "engine_call list"
  trace :: "event list"

definition init_state :: "(nat \<Rightarrow> proxy_info) \<Rightarrow> state" where
  "init_state mem =
     \<lparr>jobs = (\<lambda>_. None), next_handle = 1, pending_jobs = [], thread_started = False,
      destroyed = False, worker_loop = [], origin_loop = [], memory = mem,
      engine_log = [], trace = []\<rparr>"

section \<open>Job\<close>

text \<open>The record a constructed job holds, and the constructor with its
  \<^verbatim>\<open>DCHECK(callback)\<close>.\<close>

definition new_Job :: "gurl \<Rightarrow> nat \<Rightarrow> nat \<Rightarrow> job" where
  "new_Job u r c =
     \<lparr>coordinator = True, callback = Some c, results = Some r, url = u,
      is_started = False, results_buf = []\<rparr>"

definition Job_ctor :: "gurl \<Rightarrow> nat \<Rightarrow> nat option \<Rightarrow> error + job" where
  "Job_ctor u r cb =
     (case cb of None \<Rightarrow> Inl DCheckCallback | Some c \<Rightarrow> Inr (new_Job u r c))"

text \<open>\<^verbatim>\<open>was_cancelled\<close>, \<^verbatim>\<open>Start\<close> (which posts \<^verbatim>\<open>DoQuery\<close> to the loop of the
  coordinator's thread) and \<^verbatim>\<open>Cancel\<close>.\<close>

definition was_cancelled :: "job \<Rightarrow> bool" where
  "was_cancelled j = (callback j = None)"

definition Job_Start :: "handle \<Rightarrow> state \<Rightarrow> error + state" where
  "Job_Start h s =
     (case jobs s h of
        None \<Rightarrow> Inl BadHandle
      | Some j \<Rightarrow>
          if \<not> coordinator j \<or> \<not> thread_started s then Inl NullDeref
          else Inr (s\<lparr>jobs := (jobs s)(h \<mapsto> j\<lparr>is_started := True\<rparr>),
                      worker_loop := worker_loop s @ [DoQuery h],
                      trace := trace s @ [EvJobStart h]\<rparr>))"

definition Job_Cancel :: "handle \<Rightarrow> state \<Rightarrow> error + state" where
  "Job_Cancel h s =
     (case jobs s h of
        None \<Rightarrow> Inl BadHandle
      | Some j \<Rightarrow>
          Inr (s\<lparr>jobs := (jobs s)(h \<mapsto> j\<lparr>coordinator := False, callback := None,
                                           results := None\<rparr>),
                 trace := trace s @ [EvJobCancel h]\<rparr>))"

section \<open>SingleThreadedProxyResolver\<close>

text \<open>The member functions, in the order in which they depend on each other.
  \<^verbatim>\<open>GetProxyForURL\<close> returns its code with the request handle and the new state;
  \<^verbatim>\<open>std::find\<close> followed by \<^verbatim>\<open>erase\<close> removes the first occurrence of the job.\<close>

definition EnsureThreadStarted :: "state \<Rightarrow> state" where
  "EnsureThreadStarted s =
     (if \<not> thread_started s
      then s\<lparr>thread_started := True, trace := trace s @ [EvThreadStart]\<rparr>
      else s)"

definition ProcessPendingJobs :: "state \<Rightarrow> error + state" where
  "ProcessPendingJobs s =
     (case pending_jobs s of
        [] \<Rightarrow> Inr s
      | h # _ \<Rightarrow>
          (case jobs s h of
             None \<Rightarrow> Inl BadHandle
           | Some j \<Rightarrow>
               if is_started j then Inr s
               else Job_Start h (EnsureThreadStarted s)))"

definition RemoveFrontOfJobsQueueAndStartNext :: "handle \<Rightarrow> state \<Rightarrow> error + state" where
  "RemoveFrontOfJobsQueueAndStartNext expected_job s =
     (case pending_jobs s of
        [] \<Rightarrow> Inl DCheckFront
      | h # rest \<Rightarrow>
          if expected_job \<noteq> h then Inl DCheckFront
          else ProcessPendingJobs (s\<lparr>pending_jobs := rest\<rparr>))"

definition GetProxyForURL ::
  "gurl \<Rightarrow> nat \<Rightarrow> nat option \<Rightarrow> state \<Rightarrow> error + (int \<times> handle \<times> state)" where
  "GetProxyForURL u r cb s =
     (if cb = None then Inl DCheckCallback
      else case Job_ctor u r cb of
        Inl e \<Rightarrow> Inl e
      | Inr job \<Rightarrow>
          (let h = next_handle s;
               s1 = s\<lparr>jobs := (jobs s)(h \<mapsto> job), next_handle := Suc h,
                       pending_jobs := pending_jobs s @ [h]\<rparr>
           in case ProcessPendingJobs s1 of
                Inl e \<Rightarrow> Inl e
              | Inr s2 \<Rightarrow> Inr (ERR_IO_PENDING, h, s2)))"

definition CancelRequest :: "handle \<Rightarrow> state \<Rightarrow> error + state" where
  "CancelRequest req s =
     (if req = 0 then Inl DCheckReq
      else case jobs s req of
        None \<Rightarrow> Inl BadHandle
      | Some j \<Rightarrow>
          (let is_active_job =
                 (is_started j \<and> pending_jobs s \<noteq> [] \<and> hd (pending_jobs s) = req)
           in case Job_Cancel req s of
                Inl e \<Rightarrow> Inl e
              | Inr s1 \<Rightarrow>
                  if is_active_job then RemoveFrontOfJobsQueueAndStartNext req s1
                  else if req \<in> set (pending_jobs s1)
                  then Inr (s1\<lparr>pending_jobs := remove1 req (pending_jobs s1)\<rparr>)
                  else Inl DCheckFound))"

definition SetPacScriptHelper :: "gurl \<Rightarrow> string \<Rightarrow> state \<Rightarrow> state" where
  "SetPacScriptHelper pac_url bytes s =
     (let s1 = EnsureThreadStarted s
      in s1\<lparr>worker_loop := worker_loop s1 @ [SetPacScriptTask pac_url bytes]\<rparr>)"

definition SetPacScriptByUrlInternal :: "gurl \<Rightarrow> state \<Rightarrow> state" where
  "SetPacScriptByUrlInternal pac_url s = SetPacScriptHelper pac_url [] s"

definition SetPacScriptByDataInternal :: "string \<Rightarrow> state \<Rightarrow> state" where
  "SetPacScriptByDataInternal bytes s = SetPacScriptHelper [] bytes s"

section \<open>The worker thread\<close>

text \<open>\<^verbatim>\<open>SetPacScriptTask::Run\<close> and \<^verbatim>\<open>Job::DoQuery\<close>. The calls the wrapped resolver
  receives are logged; its answer to a query may depend on them.\<close>

definition SetPacScriptTask_Run :: "world \<Rightarrow> gurl \<Rightarrow> string \<Rightarrow> state \<Rightarrow> state" where
  "SetPacScriptTask_Run w pac_url bytes s =
     (if expects_pac_bytes w
      then s\<lparr>engine_log := engine_log s @ [EngSetPacScriptByData bytes]\<rparr>
      else s\<lparr>engine_log := engine_log s @ [EngSetPacScriptByUrl pac_url]\<rparr>)"

definition Job_DoQuery :: "world \<Rightarrow> handle \<Rightarrow> state \<Rightarrow> error + state" where
  "Job_DoQuery w h s =
     (case jobs s h of
        None \<Rightarrow> Inl BadHandle
      | Some j \<Rightarrow>
          (let (rv, buf) = engine w (engine_log s) (url j)
           in if rv = ERR_IO_PENDING then Inl DCheckNotPending
              else Inr (s\<lparr>jobs := (jobs s)(h \<mapsto> j\<lparr>results_buf := buf\<rparr>),
                          engine_log := engine_log s @ [EngGetProxyForURL (url j)],
                          origin_loop := origin_loop s @ [(h, rv)]\<rparr>)))"

fun run_task :: "world \<Rightarrow> worker_task \<Rightarrow> state \<Rightarrow> error + state" where
  "run_task w (DoQuery h) s = Job_DoQuery w h s"
| "run_task w (SetPacScriptTask pac_url bytes) s = Inr (SetPacScriptTask_Run w pac_url bytes s)"

text \<open>One turn of the worker's message loop: the task at the front runs.\<close>

definition worker_step :: "world \<Rightarrow> state \<Rightarrow> error + state" where
  "worker_step w s =
     (case worker_loop s of
        [] \<Rightarrow> Inr s
      | t # ts \<Rightarrow> run_task w t (s\<lparr>worker_loop := ts, trace := trace s @ [EvRun t]\<rparr>))"

text \<open>
  Modelled from the spec: \<^verbatim>\<open>base::Thread\<close> (base/thread.h) is not under src/. Destroying
  the thread object stops the thread: the tasks already posted to its loop run, in
  order, and then the loop quits, so the execution context outlives every engine
  invocation it is running.
\<close>

fun drain :: "world \<Rightarrow> nat \<Rightarrow> state \<Rightarrow> error + state" where
  "drain w 0 s = Inr s"
| "drain w (Suc n) s =
     (case worker_step w s of Inl e \<Rightarrow> Inl e | Inr s' \<Rightarrow> drain w n s')"

text \<open>
  Modelled from the spec: the destructor of \<^verbatim>\<open>base::Thread\<close>, on the thread object the
  resolver owns. A thread that was never started has nothing to stop.
\<close>

definition Thread_destroy :: "world \<Rightarrow> state \<Rightarrow> error + state" where
  "Thread_destroy w s =
     (if \<not> thread_started s then Inr s
      else case drain w (length (worker_loop s)) s of
             Inl e \<Rightarrow> Inl e
           | Inr s' \<Rightarrow> Inr (s'\<lparr>thread_started := False, trace := trace s' @ [EvThreadStop]\<rparr>))"

section \<open>The destructor\<close>

text \<open>The loop of the destructor's body over the pending queue.\<close>

fun cancel_all :: "handle list \<Rightarrow> state \<Rightarrow> error + state" where
  "cancel_all [] s = Inr s"
| "cancel_all (h # hs) s =
     (case Job_Cancel h s of Inl e \<Rightarrow> Inl e | Inr s' \<Rightarrow> cancel_all hs s')"

text \<open>
  Modelled from the spec: the destruction of the members after the destructor's body.
  Their declaration order is in net/proxy/single\_threaded\_proxy\_resolver.h, which is
  not under src/; the destructor's comment and the spec give it: the queue is released,
  then the thread is destroyed, and the wrapped resolver after the thread.
\<close>

definition destroy_members :: "world \<Rightarrow> state \<Rightarrow> error + state" where
  "destroy_members w s =
     (case Thread_destroy w (s\<lparr>pending_jobs := []\<rparr>) of
        Inl e \<Rightarrow> Inl e
      | Inr s2 \<Rightarrow> Inr (s2\<lparr>destroyed := True, trace := trace s2 @ [EvResolverFree]\<rparr>))"

text \<open>The destructor: its body cancels every job of the queue, in queue order; the
  members are destroyed after it.\<close>

definition Destructor :: "world \<Rightarrow> state \<Rightarrow> error + state" where
  "Destructor w s =
     (case cancel_all (pending_jobs s) s of
        Inl e \<Rightarrow> Inl e
      | Inr s1 \<Rightarrow> destroy_members w s1)"

section \<open>Calls from the origin thread\<close>

text \<open>A call of the public interface. A member function called on a destroyed resolver
  is a use after free.\<close>

fun call_api :: "world \<Rightarrow> api \<Rightarrow> state \<Rightarrow> error + state" where
  "call_api w a s =
     (if destroyed s then Inl UseAfterFree
      else case a of
        CallGetProxyForURL u r cb \<Rightarrow>
          (case GetProxyForURL u r cb s of Inl e \<Rightarrow> Inl e | Inr (rv, h, s') \<Rightarrow> Inr s')
      | CallCancelRequest req \<Rightarrow> CancelRequest req s
      | CallSetPacScriptByUrl pac_url \<Rightarrow> Inr (SetPacScriptByUrlInternal pac_url s)
      | CallSetPacScriptByData bytes \<Rightarrow> Inr (SetPacScriptByDataInternal bytes s)
      | CallDestroy \<Rightarrow> Destructor w s)"

fun call_apis :: "world \<Rightarrow> api list \<Rightarrow> state \<Rightarrow> error + state" where
  "call_apis w [] s = Inr s"
| "call_apis w (a # as) s =
     (case call_api w a s of Inl e \<Rightarrow> Inl e | Inr s' \<Rightarrow> call_apis w as s')"

text \<open>\<^verbatim>\<open>callback_->Run(result_code)\<close>: the callback runs, and does what the caller
  wrote it to do.\<close>

definition Callback_Run :: "world \<Rightarrow> handle \<Rightarrow> nat \<Rightarrow> int \<Rightarrow> state \<Rightarrow> error + state" where
  "Callback_Run w h c rv s =
     call_apis w (on_complete w c rv) (s\<lparr>trace := trace s @ [EvCallbackRun h c rv]\<rparr>)"

text \<open>\<^verbatim>\<open>results_->Use(results_buf_)\<close>.\<close>

definition Results_Use :: "handle \<Rightarrow> job \<Rightarrow> state \<Rightarrow> error + state" where
  "Results_Use h j s =
     (case results j of
        None \<Rightarrow> Inl NullDeref
      | Some r \<Rightarrow>
          Inr (s\<lparr>memory := (memory s)(r := results_buf j),
                 trace := trace s @ [EvUse h r (results_buf j)]\<rparr>))"

text \<open>\<^verbatim>\<open>Job::QueryComplete\<close>, with the second look at the cancellation after the
  callback has run.\<close>

definition Job_QueryComplete :: "world \<Rightarrow> handle \<Rightarrow> int \<Rightarrow> state \<Rightarrow> error + state" where
  "Job_QueryComplete w h result_code s =
     (case jobs s h of
        None \<Rightarrow> Inl BadHandle
      | Some j \<Rightarrow>
          if \<not> was_cancelled j then
            (case (if result_code \<ge> OK then Results_Use h j s else Inr s) of
               Inl e \<Rightarrow> Inl e
             | Inr s1 \<Rightarrow>
                 (case Callback_Run w h (the (callback j)) result_code s1 of
                    Inl e \<Rightarrow> Inl e
                  | Inr s2 \<Rightarrow>
                      (case jobs s2 h of
                         None \<Rightarrow> Inl BadHandle
                       | Some j2 \<Rightarrow>
                           if \<not> was_cancelled j2 then
                             (if \<not> coordinator j2 then Inl NullDeref
                              else if destroyed s2 then Inl UseAfterFree
                              else RemoveFrontOfJobsQueueAndStartNext h
                                     (s2\<lparr>trace := trace s2 @ [EvAdvance h]\<rparr>))
                           else Inr s2)))
          else Inr s)"

text \<open>One turn of the origin thread's message loop.\<close>

definition origin_step :: "world \<Rightarrow> state \<Rightarrow> error + state" where
  "origin_step w s =
     (case origin_loop s of
        [] \<Rightarrow> Inr s
      | (h, rv) # rest \<Rightarrow> Job_QueryComplete w h rv (s\<lparr>origin_loop := rest\<rparr>))"

section \<open>Runs of the system\<close>

text \<open>A run: calls of the interface and turns of the two loops, in any order. It stops
  at the first error.\<close>

datatype op = Call api | WorkerStep | OriginStep

fun step :: "world \<Rightarrow> op \<Rightarrow> state \<Rightarrow> error + state" where
  "step w (Call a) s = call_api w a s"
| "step w WorkerStep s = worker_step w s"
| "step w OriginStep s = origin_step w s"

fun exec :: "world \<Rightarrow> op list \<Rightarrow> state \<Rightarrow> error + state" where
  "exec w [] s = Inr s"
| "exec w (x # xs) s =
     (case step w x s of Inl e \<Rightarrow> Inl e | Inr s' \<Rightarrow> exec w xs s')"

section \<open>Notions used in the proofs\<close>

subsection \<open>Observations on a state\<close>

text \<open>
  The tasks of a job that are in flight: its query waiting or running on the worker's
  loop, and its completion waiting on the origin loop.
\<close>

definition in_flight :: "state \<Rightarrow> handle \<Rightarrow> nat" where
  "in_flight s h =
     count_list (worker_loop s) (DoQuery h) + count_list (map fst (origin_loop s)) h"

fun is_run_of :: "handle \<Rightarrow> event \<Rightarrow> bool" where
  "is_run_of h (EvCallbackRun h' c rv) = (h' = h)"
| "is_run_of h _ = False"

text \<open>
  The number of runs of the callback of a job in a trace.
\<close>

definition callback_runs :: "event list \<Rightarrow> handle \<Rightarrow> nat" where
  "callback_runs tr h = length (filter (is_run_of h) tr)"

text \<open>
  The jobs started in a trace, in the order of their starts.
\<close>

definition starts :: "event list \<Rightarrow> handle list" where
  "starts tr = concat (map (\<lambda>e. case e of EvJobStart h \<Rightarrow> [h] | _ \<Rightarrow> []) tr)"

text \<open>
  The tasks the worker has run in a trace, in the order in which it ran them.
\<close>

definition ran :: "event list \<Rightarrow> worker_task list" where
  "ran tr = concat (map (\<lambda>e. case e of EvRun t \<Rightarrow> [t] | _ \<Rightarrow> []) tr)"

text \<open>
  The timeline of the worker: what it has run, followed by what waits on its loop. A
  turn of the worker moves the front of the loop to the end of what has run, so the
  timeline is the order in which the worker runs its tasks.
\<close>

definition timeline :: "state \<Rightarrow> worker_task list" where
  "timeline s = ran (trace s) @ worker_loop s"

text \<open>
  The queries among the tasks of the worker, in the order of the tasks.
\<close>

fun query_of :: "worker_task \<Rightarrow> handle list" where
  "query_of (DoQuery h) = [h]"
| "query_of (SetPacScriptTask pac_url bytes) = []"

definition queries :: "worker_task list \<Rightarrow> handle list" where
  "queries ts = concat (map query_of ts)"

text \<open>
  The events of a trace that a later state adds to it.
\<close>

definition new_events :: "state \<Rightarrow> state \<Rightarrow> event list" where
  "new_events s s' = drop (length (trace s)) (trace s')"

text \<open>
  An event is quiet for a job when it is not a start of the job, a write of its output
  slot, a run of its callback or an advance of the queue by the job. The worker running
  the query of the job is quiet: it touches the job's own buffer only.
\<close>

fun quiet :: "handle \<Rightarrow> event \<Rightarrow> bool" where
  "quiet h (EvJobStart h') = (h' \<noteq> h)"
| "quiet h (EvUse h' r b) = (h' \<noteq> h)"
| "quiet h (EvCallbackRun h' c rv) = (h' \<noteq> h)"
| "quiet h (EvAdvance h') = (h' \<noteq> h)"
| "quiet h _ = True"

text \<open>
  The events that a call of the interface, or a turn of the worker, can produce: no
  write of an output slot, no run of a callback, no advance of the queue.
\<close>

fun api_event :: "event \<Rightarrow> bool" where
  "api_event (EvUse h r b) = False"
| "api_event (EvCallbackRun h c rv) = False"
| "api_event (EvAdvance h) = False"
| "api_event _ = True"

fun concerns :: "handle \<Rightarrow> event \<Rightarrow> bool" where
  "concerns h (EvJobStart h') = (h' = h)"
| "concerns h (EvJobCancel h') = (h' = h)"
| "concerns h (EvCallbackRun h' c rv) = (h' = h)"
| "concerns h _ = False"


text \<open>
  The submissions: a query, or a configuration call.
\<close>

fun is_submission :: "op \<Rightarrow> bool" where
  "is_submission (Call (CallGetProxyForURL u r cb)) = True"
| "is_submission (Call (CallSetPacScriptByUrl pac_url)) = True"
| "is_submission (Call (CallSetPacScriptByData bytes)) = True"
| "is_submission _ = False"

text \<open>
  A resolver to which nothing has been submitted.
\<close>

definition idle :: "state \<Rightarrow> bool" where
  "idle s =
     (pending_jobs s = [] \<and> worker_loop s = [] \<and> origin_loop s = [] \<and>
      \<not> thread_started s \<and> EvThreadStart \<notin> set (trace s))"

subsection \<open>The invariant\<close>

text \<open>The life of a job, as the queue, the loops and the trace show it: cancelled
  before or after its start, or live and queued, running (at the front of the queue) or
  completed (it has left the queue after its callback ran).\<close>

definition job_st :: "handle list \<Rightarrow> event list \<Rightarrow> nat \<Rightarrow> handle \<Rightarrow> job \<Rightarrow> bool" where
  "job_st pend tr fl h j =
     (if was_cancelled j then
        \<not> coordinator j \<and> results j = None \<and> EvJobCancel h \<in> set tr \<and> h \<notin> set pend \<and>
        (if is_started j
         then (\<forall>h' \<in> set pend. h < h') \<and> fl + callback_runs tr h \<le> 1 \<and> h \<in> set (starts tr)
         else fl = 0 \<and> callback_runs tr h = 0 \<and> h \<notin> set (starts tr))
      else
        coordinator j \<and> results j \<noteq> None \<and> EvJobCancel h \<notin> set tr \<and>
        (if is_started j
         then h \<in> set (starts tr) \<and>
              (if h \<in> set pend then hd pend = h \<and> fl + callback_runs tr h = 1
               else (\<forall>h' \<in> set pend. h < h') \<and> fl = 0 \<and> callback_runs tr h = 1)
         else h \<in> set pend \<and> fl = 0 \<and> callback_runs tr h = 0 \<and> h \<notin> set (starts tr)))"

definition job_ok :: "state \<Rightarrow> handle \<Rightarrow> job \<Rightarrow> bool" where
  "job_ok s h j =
     (0 < h \<and> h < next_handle s \<and> job_st (pending_jobs s) (trace s) (in_flight s h) h j)"

text \<open>
  An address at which no job has been constructed appears nowhere.
\<close>

definition unalloc_ok :: "state \<Rightarrow> handle \<Rightarrow> bool" where
  "unalloc_ok s h =
     (h \<notin> set (pending_jobs s) \<and> in_flight s h = 0 \<and> callback_runs (trace s) h = 0 \<and>
      h \<notin> set (starts (trace s)) \<and> EvJobCancel h \<notin> set (trace s) \<and>
      EvRun (DoQuery h) \<notin> set (trace s))"

text \<open>
  The worker thread: started at most once, stopped only by the destruction.
\<close>

definition inv_thread :: "state \<Rightarrow> bool" where
  "inv_thread s =
     (count_list (trace s) EvThreadStart \<le> 1 \<and>
      (thread_started s \<longrightarrow> count_list (trace s) EvThreadStart = 1 \<and> \<not> destroyed s) \<and>
      (\<not> thread_started s \<longrightarrow> \<not> destroyed s \<longrightarrow> EvThreadStart \<notin> set (trace s)) \<and>
      (worker_loop s \<noteq> [] \<longrightarrow> thread_started s) \<and>
      (destroyed s \<longrightarrow> pending_jobs s = []) \<and>
      (EvThreadStop \<in> set (trace s) \<longrightarrow> destroyed s))"

text \<open>
  The invariant of the reachable states.
\<close>

definition consistent :: "state \<Rightarrow> bool" where
  "consistent s =
     (0 < next_handle s \<and>
      (\<forall>h j. jobs s h = Some j \<longrightarrow> job_ok s h j) \<and>
      (\<forall>h. jobs s h = None \<longrightarrow> unalloc_ok s h) \<and>
      (\<forall>h. next_handle s \<le> h \<longrightarrow> jobs s h = None) \<and>
      sorted_wrt (<) (pending_jobs s) \<and>
      sorted_wrt (<) (starts (trace s)) \<and>
      inv_thread s)"


subsection \<open>The effect of the operations, in closed form\<close>

text \<open>
  \<^verbatim>\<open>EnsureThreadStarted\<close> followed by
  \<^verbatim>\<open>Job::Start\<close>, and what
  \<^verbatim>\<open>ProcessPendingJobs\<close> returns.
\<close>

definition start_job :: "handle \<Rightarrow> job \<Rightarrow> state \<Rightarrow> state" where
  "start_job h j s =
     (EnsureThreadStarted s)
       \<lparr>jobs := (jobs s)(h \<mapsto> j\<lparr>is_started := True\<rparr>),
        worker_loop := worker_loop s @ [DoQuery h],
        trace := trace (EnsureThreadStarted s) @ [EvJobStart h]\<rparr>"

definition process_result :: "state \<Rightarrow> state" where
  "process_result s =
     (case pending_jobs s of
        [] \<Rightarrow> s
      | h # _ \<Rightarrow>
          (case jobs s h of
             None \<Rightarrow> s
           | Some j \<Rightarrow> if is_started j then s else start_job h j s))"

text \<open>Submission: the new job at the tail of the queue.\<close>

definition push_job :: "gurl \<Rightarrow> nat \<Rightarrow> nat \<Rightarrow> state \<Rightarrow> state" where
  "push_job u r c s =
     s\<lparr>jobs := (jobs s)(next_handle s \<mapsto> new_Job u r c), next_handle := Suc (next_handle s),
       pending_jobs := pending_jobs s @ [next_handle s]\<rparr>"

text \<open>Cancellation of a queued job: its references are cleared and it leaves the queue.\<close>

definition cancel_remove :: "handle \<Rightarrow> job \<Rightarrow> state \<Rightarrow> state" where
  "cancel_remove h j s =
     s\<lparr>jobs := (jobs s)(h \<mapsto> j\<lparr>coordinator := False, callback := None, results := None\<rparr>),
       trace := trace s @ [EvJobCancel h],
       pending_jobs := remove1 h (pending_jobs s)\<rparr>"

text \<open>
  A turn of the worker, on a query and on a configuration task.
\<close>

definition ran_query :: "world \<Rightarrow> handle \<Rightarrow> job \<Rightarrow> worker_task list \<Rightarrow> state \<Rightarrow> state" where
  "ran_query w h j ts s =
     s\<lparr>worker_loop := ts, trace := trace s @ [EvRun (DoQuery h)],
       jobs := (jobs s)(h \<mapsto> j\<lparr>results_buf := snd (engine w (engine_log s) (url j))\<rparr>),
       engine_log := engine_log s @ [EngGetProxyForURL (url j)],
       origin_loop := origin_loop s @ [(h, fst (engine w (engine_log s) (url j)))]\<rparr>"

definition ran_config :: "world \<Rightarrow> gurl \<Rightarrow> string \<Rightarrow> worker_task list \<Rightarrow> state \<Rightarrow> state" where
  "ran_config w pac_url bytes ts s =
     s\<lparr>worker_loop := ts, trace := trace s @ [EvRun (SetPacScriptTask pac_url bytes)],
       engine_log := engine_log s @
         [if expects_pac_bytes w then EngSetPacScriptByData bytes
          else EngSetPacScriptByUrl pac_url]\<rparr>"

text \<open>
  The completion of a job up to the run of its callback, and the advance of the queue
  after it.
\<close>

definition begin_callback :: "handle \<Rightarrow> job \<Rightarrow> int \<Rightarrow> state \<Rightarrow> state" where
  "begin_callback h j rv s =
     s\<lparr>memory := (if rv \<ge> OK then (memory s)(the (results j) := results_buf j)
                   else memory s),
       trace := trace s @
         (if rv \<ge> OK then [EvUse h (the (results j)) (results_buf j)] else []) @
         [EvCallbackRun h (the (callback j)) rv]\<rparr>"

definition advanced :: "handle \<Rightarrow> state \<Rightarrow> state" where
  "advanced h s = s\<lparr>trace := trace s @ [EvAdvance h], pending_jobs := tl (pending_jobs s)\<rparr>"

text \<open>
  The end of the destruction, after the thread has run what was posted to it.
\<close>

definition torn_down :: "state \<Rightarrow> state \<Rightarrow> state" where
  "torn_down s s2 =
     s2\<lparr>thread_started := False, destroyed := True,
        trace := trace s2 @ (if thread_started s then [EvThreadStop] else []) @ [EvResolverFree]\<rparr>"

text \<open>
  What every step preserves: the trace and the timeline only grow, a job stays in the
  store, and a cancelled job stays cancelled and is left alone. What a call of the
  interface or a turn of the worker preserves as well: the memory, and a job of the
  queue stays there unless it is cancelled.
\<close>

definition evolves :: "state \<Rightarrow> state \<Rightarrow> bool" where
  "evolves s s' =
     (trace s' = trace s @ new_events s s' \<and>
      (\<exists>post. timeline s' = timeline s @ post) \<and>
      (\<forall>h j. jobs s h = Some j \<longrightarrow>
         (\<exists>j'. jobs s' h = Some j' \<and>
               (was_cancelled j \<longrightarrow>
                  was_cancelled j' \<and> (\<forall>e \<in> set (new_events s s'). quiet h e)))))"

definition kept :: "state \<Rightarrow> state \<Rightarrow> bool" where
  "kept s s' =
     (evolves s s' \<and> memory s' = memory s \<and>
      (\<forall>e \<in> set (new_events s s'). api_event e) \<and>
      (\<forall>h j j'. jobs s h = Some j \<longrightarrow> jobs s' h = Some j' \<longrightarrow> h \<in> set (pending_jobs s) \<longrightarrow>
           \<not> was_cancelled j' \<longrightarrow> h \<in> set (pending_jobs s')))"

subsection \<open>Collaborators for concrete runs\<close>

text \<open>
  An engine that fails on one URL and succeeds on the others, with callbacks that do
  nothing; and one whose callbacks destroy the resolver.
\<close>

definition demo_world :: world where
  "demo_world =
     \<lparr>engine = (\<lambda>log u. (if u = ''bad'' then - 2 else 0, ''DIRECT'')),
      expects_pac_bytes = True,
      on_complete = (\<lambda>c rv. [])\<rparr>"

definition destroying_world :: world where
  "destroying_world =
     \<lparr>engine = (\<lambda>log u. (0, ''DIRECT'')),
      expects_pac_bytes = True,
      on_complete = (\<lambda>c rv. [CallDestroy])\<rparr>"

definition demo_memory :: "nat \<Rightarrow> proxy_info" where
  "demo_memory = (\<lambda>_. ''old'')"

section \<open>The invariant and its preservation\<close>

lemma invI:
  "0 < next_handle s \<Longrightarrow> (\<And>h j. jobs s h = Some j \<Longrightarrow> job_ok s h j) \<Longrightarrow>
   (\<And>h. jobs s h = None \<Longrightarrow> unalloc_ok s h) \<Longrightarrow>
   (\<And>h. next_handle s \<le> h \<Longrightarrow> jobs s h = None) \<Longrightarrow>
   sorted_wrt (<) (pending_jobs s) \<Longrightarrow> sorted_wrt (<) (starts (trace s)) \<Longrightarrow>
   inv_thread s \<Longrightarrow> consistent s"
  by (simp add: consistent_def)

lemma inv_job: "consistent s \<Longrightarrow> jobs s h = Some j \<Longrightarrow> job_ok s h j"
  by (simp add: consistent_def)

lemma inv_none: "consistent s \<Longrightarrow> jobs s h = None \<Longrightarrow> unalloc_ok s h"
  by (simp add: consistent_def)

lemma inv_fresh: "consistent s \<Longrightarrow> next_handle s \<le> h \<Longrightarrow> jobs s h = None"
  by (simp add: consistent_def)

lemma inv_next: "consistent s \<Longrightarrow> 0 < next_handle s"
  by (simp add: consistent_def)

lemma inv_sorted: "consistent s \<Longrightarrow> sorted_wrt (<) (pending_jobs s)"
  by (simp add: consistent_def)

lemma inv_sorted_starts: "consistent s \<Longrightarrow> sorted_wrt (<) (starts (trace s))"
  by (simp add: consistent_def)

lemma inv_thr: "consistent s \<Longrightarrow> inv_thread s"
  by (simp add: consistent_def)

lemma starts_append [simp]: "starts (xs @ ys) = starts xs @ starts ys"
  by (simp add: starts_def)

lemma starts_single [simp]:
  "starts [EvJobStart h] = [h]" "starts [EvThreadStart] = []" "starts [EvJobCancel h] = []"
  "starts [EvRun t] = []" "starts [EvUse h r b] = []" "starts [EvCallbackRun h c rv] = []"
  "starts [EvAdvance h] = []" "starts [EvThreadStop] = []" "starts [EvResolverFree] = []"
  "starts [] = []"
  by (simp_all add: starts_def)

lemma ran_append [simp]: "ran (xs @ ys) = ran xs @ ran ys"
  by (simp add: ran_def)

lemma ran_single [simp]:
  "ran [EvJobStart h] = []" "ran [EvThreadStart] = []" "ran [EvJobCancel h] = []"
  "ran [EvRun t] = [t]" "ran [EvUse h r b] = []" "ran [EvCallbackRun h c rv] = []"
  "ran [EvAdvance h] = []" "ran [EvThreadStop] = []" "ran [EvResolverFree] = []"
  "ran [] = []"
  by (simp_all add: ran_def)

lemma callback_runs_append [simp]:
  "callback_runs (xs @ ys) h = callback_runs xs h + callback_runs ys h"
  by (simp add: callback_runs_def)

lemma callback_runs_single [simp]:
  "callback_runs [EvJobStart h'] h = 0" "callback_runs [EvThreadStart] h = 0"
  "callback_runs [EvJobCancel h'] h = 0" "callback_runs [EvRun t] h = 0"
  "callback_runs [EvUse h' r b] h = 0"
  "callback_runs [EvCallbackRun h' c rv] h = (if h' = h then 1 else 0)"
  "callback_runs [EvAdvance h'] h = 0" "callback_runs [EvThreadStop] h = 0"
  "callback_runs [EvResolverFree] h = 0" "callback_runs [] h = 0"
  by (simp_all add: callback_runs_def)

lemma sorted_wrt_snoc: "sorted_wrt P (xs @ [x]) = (sorted_wrt P xs \<and> (\<forall>y\<in>set xs. P y x))"
  by (simp add: sorted_wrt_append)

lemma inv_init: "consistent (init_state mem)"
  by (rule invI)
     (simp_all add: init_state_def unalloc_ok_def in_flight_def inv_thread_def)

lemma EnsureThreadStarted_eq:
  "EnsureThreadStarted s =
     s\<lparr>thread_started := True,
       trace := trace s @ (if thread_started s then [] else [EvThreadStart])\<rparr>"
  by (simp add: EnsureThreadStarted_def)

lemma job_st_ThreadStart: "job_st pend (tr @ [EvThreadStart]) fl h j = job_st pend tr fl h j"
  by (simp add: job_st_def)

lemma inv_EnsureThreadStarted:
  assumes "consistent s" "\<not> destroyed s"
  shows "consistent (EnsureThreadStarted s)"
proof (rule invI)
  fix h j assume "jobs (EnsureThreadStarted s) h = Some j"
  then have "job_ok s h j" using inv_job[OF assms(1)] by (simp add: EnsureThreadStarted_eq)
  then show "job_ok (EnsureThreadStarted s) h j"
    by (simp add: job_ok_def in_flight_def EnsureThreadStarted_eq job_st_ThreadStart)
next
  fix h assume "jobs (EnsureThreadStarted s) h = None"
  then have "unalloc_ok s h" using inv_none[OF assms(1)] by (simp add: EnsureThreadStarted_eq)
  then show "unalloc_ok (EnsureThreadStarted s) h"
    by (simp add: unalloc_ok_def in_flight_def EnsureThreadStarted_eq)
next
  show "inv_thread (EnsureThreadStarted s)"
    using inv_thr[OF assms(1)] assms(2) by (simp add: inv_thread_def EnsureThreadStarted_eq)
next
  fix h assume "next_handle (EnsureThreadStarted s) \<le> h"
  then show "jobs (EnsureThreadStarted s) h = None"
    using inv_fresh[OF assms(1), of h] by (simp add: EnsureThreadStarted_eq)
qed (use assms(1) in \<open>simp_all add: EnsureThreadStarted_eq inv_next inv_sorted inv_sorted_starts\<close>)

lemma EnsureThreadStarted_started: "thread_started (EnsureThreadStarted s)"
  by (simp add: EnsureThreadStarted_eq)

lemma other_event:
  "\<not> concerns h e \<Longrightarrow>
   starts (tr @ [e]) = starts tr \<or> (\<exists>h'. h' \<noteq> h \<and> e = EvJobStart h' \<and> starts (tr @ [e]) = starts tr @ [h'])"
  by (cases e) simp_all

lemma other_event_facts:
  "\<not> concerns h e \<Longrightarrow>
   (h \<in> set (starts (tr @ [e])) \<longleftrightarrow> h \<in> set (starts tr)) \<and>
   callback_runs (tr @ [e]) h = callback_runs tr h \<and>
   (EvJobCancel h \<in> set (tr @ [e]) \<longleftrightarrow> EvJobCancel h \<in> set tr)"
  by (cases e) auto

lemma job_st_event_other:
  "\<not> concerns h e \<Longrightarrow> job_st pend (tr @ [e]) fl h j = job_st pend tr fl h j"
  using other_event_facts[of h e tr] unfolding job_st_def by simp

lemma job_st_push:
  "job_st pend tr fl h j \<Longrightarrow> h < n \<Longrightarrow> job_st (pend @ [n]) tr fl h j"
  unfolding job_st_def by (cases pend) (auto split: if_splits)

lemma hd_remove1: "xs \<noteq> [] \<Longrightarrow> x \<noteq> hd xs \<Longrightarrow> remove1 x xs \<noteq> [] \<and> hd (remove1 x xs) = hd xs"
  by (cases xs) auto

lemma job_st_remove:
  "job_st pend tr fl h j \<Longrightarrow> x \<noteq> h \<Longrightarrow> job_st (remove1 x pend) tr fl h j"
  unfolding job_st_def using hd_remove1[of pend x] set_remove1_subset[of x pend]
  by (cases pend) (auto split: if_splits)

lemma job_st_start:
  "job_st (h # rest) tr fl h j \<Longrightarrow> \<not> is_started j \<Longrightarrow>
   job_st (h # rest) (tr @ [EvJobStart h]) (Suc fl) h (j\<lparr>is_started := True\<rparr>)"
  unfolding job_st_def by (auto simp: was_cancelled_def split: if_splits)

lemma sorted_lt_distinct: "sorted_wrt (<) (xs::nat list) \<Longrightarrow> distinct xs"
  by (induction xs) auto

lemma job_st_cancel:
  "job_st pend tr fl h j \<Longrightarrow> sorted_wrt (<) pend \<Longrightarrow> h \<in> set pend \<Longrightarrow>
   job_st (remove1 h pend) (tr @ [EvJobCancel h]) fl h
     (j\<lparr>coordinator := False, callback := None, results := None\<rparr>)"
  using sorted_lt_distinct[of pend] unfolding job_st_def
  by (cases pend) (auto simp: was_cancelled_def split: if_splits)

lemma job_st_new:
  "h \<notin> set (starts tr) \<Longrightarrow> callback_runs tr h = 0 \<Longrightarrow> EvJobCancel h \<notin> set tr \<Longrightarrow>
   job_st (pend @ [h]) tr 0 h (new_Job u r c)"
  unfolding job_st_def by (simp add: new_Job_def was_cancelled_def)

lemma job_st_buf:
  "job_st pend tr fl h (j\<lparr>results_buf := b\<rparr>) = job_st pend tr fl h j"
  unfolding job_st_def by (simp add: was_cancelled_def)

lemma job_st_pop_cancelled:
  "job_st pend tr (Suc fl) h j \<Longrightarrow> was_cancelled j \<Longrightarrow> job_st pend tr fl h j"
  unfolding job_st_def by (auto split: if_splits)

lemma job_st_pop_live:
  "job_st pend tr (Suc fl) h j \<Longrightarrow> \<not> was_cancelled j \<Longrightarrow>
   fl = 0 \<and> pend \<noteq> [] \<and> hd pend = h \<and> is_started j \<and> callback_runs tr h = 0"
  unfolding job_st_def by (auto split: if_splits)

lemma job_st_run_callback:
  "job_st pend tr (Suc fl) h j \<Longrightarrow> \<not> was_cancelled j \<Longrightarrow>
   job_st pend (tr @ [EvCallbackRun h c rv]) fl h j"
  unfolding job_st_def by (auto split: if_splits)

lemma job_st_advance:
  "job_st (h # rest) tr fl h j \<Longrightarrow> \<not> was_cancelled j \<Longrightarrow> callback_runs tr h = 1 \<Longrightarrow>
   sorted_wrt (<) (h # rest) \<Longrightarrow> job_st rest tr fl h j"
  unfolding job_st_def by (auto split: if_splits)

lemma job_st_started_le:
  "job_st pend tr fl h j \<Longrightarrow> is_started j \<Longrightarrow> sorted_wrt (<) pend \<Longrightarrow> h' \<in> set pend \<Longrightarrow> h \<le> h'"
  unfolding job_st_def by (cases pend) (auto split: if_splits)

lemma job_st_started_iff:
  "job_st pend tr fl h j \<Longrightarrow> is_started j \<longleftrightarrow> h \<in> set (starts tr)"
  unfolding job_st_def by (auto split: if_splits)

lemma job_st_pending_live:
  "job_st pend tr fl h j \<Longrightarrow> h \<in> set pend \<Longrightarrow> \<not> was_cancelled j \<and> coordinator j \<and> results j \<noteq> None"
  unfolding job_st_def by (auto split: if_splits)

lemma Job_Start_eq:
  "jobs s h = Some j \<Longrightarrow> coordinator j \<Longrightarrow> thread_started s \<Longrightarrow>
   Job_Start h s = Inr (s\<lparr>jobs := (jobs s)(h \<mapsto> j\<lparr>is_started := True\<rparr>),
                      worker_loop := worker_loop s @ [DoQuery h],
                      trace := trace s @ [EvJobStart h]\<rparr>)"
  by (simp add: Job_Start_def)

lemma inv_Job_Start_upd:
  assumes I: "consistent s" and P: "pending_jobs s = h # rest" and J: "jobs s h = Some j"
    and NS: "\<not> is_started j" and T: "thread_started s"
  shows "consistent (s\<lparr>jobs := (jobs s)(h \<mapsto> j\<lparr>is_started := True\<rparr>),
                      worker_loop := worker_loop s @ [DoQuery h],
                      trace := trace s @ [EvJobStart h]\<rparr>)" (is "consistent ?s'")
proof (rule invI)
  have Jh: "job_ok s h j" using inv_job[OF I J] .
  fix h' j' assume A: "jobs ?s' h' = Some j'"
  show "job_ok ?s' h' j'"
  proof (cases "h' = h")
    case True
    then have j': "j' = j\<lparr>is_started := True\<rparr>" using A by simp
    have "job_st (h # rest) (trace s) (in_flight s h) h j" using Jh P by (simp add: job_ok_def)
    from job_st_start[OF this NS] show ?thesis using Jh unfolding True j'
      by (simp add: job_ok_def in_flight_def P)
  next
    case False
    then have ok: "job_ok s h' j'" using A inv_job[OF I] by simp
    have "\<not> concerns h' (EvJobStart h)" using False by simp
    from job_st_event_other[OF this] ok show ?thesis using False
      by (simp add: job_ok_def in_flight_def)
  qed
next
  fix h' assume A: "jobs ?s' h' = None"
  then have ne: "h' \<noteq> h" by (auto split: if_splits)
  then have "unalloc_ok s h'" using A inv_none[OF I] by simp
  then show "unalloc_ok ?s' h'" using ne
    by (simp add: unalloc_ok_def in_flight_def)
next
  fix h' assume "next_handle ?s' \<le> h'"
  then have "jobs s h' = None" using inv_fresh[OF I] by simp
  then show "jobs ?s' h' = None" using J by auto
next
  have "\<And>x. x \<in> set (starts (trace s)) \<Longrightarrow> x < h"
  proof -
    fix x assume x: "x \<in> set (starts (trace s))"
    then obtain jx where jx: "jobs s x = Some jx"
      using inv_none[OF I, of x] by (cases "jobs s x") (auto simp: unalloc_ok_def)
    then have ok: "job_st (pending_jobs s) (trace s) (in_flight s x) x jx"
      using inv_job[OF I] by (simp add: job_ok_def)
    then have st: "is_started jx" using x job_st_started_iff by blast
    have "x \<le> h" using job_st_started_le[OF ok st inv_sorted[OF I], of h] P by simp
    moreover have "x \<noteq> h" using st NS jx J by auto
    ultimately show "x < h" by simp
  qed
  then show "sorted_wrt (<) (starts (trace ?s'))"
    using inv_sorted_starts[OF I] by (simp add: sorted_wrt_snoc)
next
  show "inv_thread ?s'" using inv_thr[OF I] T by (auto simp add: inv_thread_def)
qed (use I in \<open>simp_all add: inv_next inv_sorted\<close>)

lemma inv_pending_job:
  assumes "consistent s" "h \<in> set (pending_jobs s)"
  obtains j where "jobs s h = Some j" "\<not> was_cancelled j" "coordinator j" "results j \<noteq> None"
proof (cases "jobs s h")
  case None
  then show ?thesis using inv_none[OF assms(1), of h] assms(2) by (simp add: unalloc_ok_def)
next
  case (Some j)
  then have "job_st (pending_jobs s) (trace s) (in_flight s h) h j"
    using inv_job[OF assms(1)] by (simp add: job_ok_def)
  from job_st_pending_live[OF this assms(2)] Some that show ?thesis by blast
qed

lemma ProcessPendingJobs_eq:
  assumes "consistent s"
  shows "ProcessPendingJobs s = Inr (process_result s)"
proof (cases "pending_jobs s")
  case Nil
  then show ?thesis by (simp add: ProcessPendingJobs_def process_result_def)
next
  case (Cons h rest)
  then have "h \<in> set (pending_jobs s)" by simp
  from inv_pending_job[OF assms this] obtain j where
    j: "jobs s h = Some j" "coordinator j" by blast
  show ?thesis
  proof (cases "is_started j")
    case True
    then show ?thesis using Cons j by (simp add: ProcessPendingJobs_def process_result_def)
  next
    case False
    have "jobs (EnsureThreadStarted s) h = Some j" using j by (simp add: EnsureThreadStarted_eq)
    from Job_Start_eq[OF this j(2) EnsureThreadStarted_started]
    show ?thesis using Cons j False
      by (simp add: ProcessPendingJobs_def process_result_def start_job_def EnsureThreadStarted_eq)
  qed
qed

lemma inv_process_result:
  assumes I: "consistent s"
  shows "consistent (process_result s)"
proof (cases "pending_jobs s")
  case Nil
  then show ?thesis using I by (simp add: process_result_def)
next
  case (Cons h rest)
  then have D: "\<not> destroyed s" using inv_thr[OF I] by (auto simp: inv_thread_def)
  from Cons have "h \<in> set (pending_jobs s)" by simp
  from inv_pending_job[OF I this] obtain j where j: "jobs s h = Some j" by blast
  show ?thesis
  proof (cases "is_started j")
    case True
    then show ?thesis using Cons j I by (simp add: process_result_def)
  next
    case False
    let ?s1 = "EnsureThreadStarted s"
    have 1: "consistent ?s1" using inv_EnsureThreadStarted[OF I D] .
    have 2: "pending_jobs ?s1 = h # rest" "jobs ?s1 h = Some j"
      using Cons j by (simp_all add: EnsureThreadStarted_eq)
    have "consistent (?s1\<lparr>jobs := (jobs ?s1)(h \<mapsto> j\<lparr>is_started := True\<rparr>),
                      worker_loop := worker_loop ?s1 @ [DoQuery h],
                      trace := trace ?s1 @ [EvJobStart h]\<rparr>)"
      using inv_Job_Start_upd[OF 1 2 False EnsureThreadStarted_started] .
    moreover have "process_result s = ?s1\<lparr>jobs := (jobs ?s1)(h \<mapsto> j\<lparr>is_started := True\<rparr>),
                      worker_loop := worker_loop ?s1 @ [DoQuery h],
                      trace := trace ?s1 @ [EvJobStart h]\<rparr>"
      using Cons j False by (simp add: process_result_def start_job_def EnsureThreadStarted_eq)
    ultimately show ?thesis by simp
  qed
qed

lemma process_result_frame:
  "pending_jobs (process_result s) = pending_jobs s"
  "next_handle (process_result s) = next_handle s"
  "destroyed (process_result s) = destroyed s"
  "origin_loop (process_result s) = origin_loop s"
  "memory (process_result s) = memory s"
  "engine_log (process_result s) = engine_log s"
  by (simp_all add: process_result_def start_job_def EnsureThreadStarted_eq
        split: list.splits option.splits)

lemma inv_push_job:
  assumes I: "consistent s" and D: "\<not> destroyed s"
  shows "consistent (push_job u r c s)"
proof (rule invI)
  let ?n = "next_handle s"
  have N: "jobs s ?n = None" using inv_fresh[OF I] by simp
  have U: "unalloc_ok s ?n" using inv_none[OF I N] .
  fix h j assume A: "jobs (push_job u r c s) h = Some j"
  show "job_ok (push_job u r c s) h j"
  proof (cases "h = ?n")
    case True
    then have "j = new_Job u r c" using A by (simp add: push_job_def)
    then show ?thesis using U True inv_next[OF I] job_st_new[of ?n "trace s" "pending_jobs s" u r c]
      by (simp add: job_ok_def unalloc_ok_def push_job_def in_flight_def)
  next
    case False
    then have ok: "job_ok s h j" using A inv_job[OF I] by (simp add: push_job_def)
    then have "h < ?n" by (simp add: job_ok_def)
    from job_st_push[OF _ this] ok show ?thesis
      by (simp add: job_ok_def push_job_def in_flight_def)
  qed
next
  fix h assume A: "jobs (push_job u r c s) h = None"
  then have ne: "h \<noteq> next_handle s" by (auto simp: push_job_def split: if_splits)
  then have "unalloc_ok s h" using A inv_none[OF I] by (simp add: push_job_def)
  then show "unalloc_ok (push_job u r c s) h" using ne
    by (simp add: unalloc_ok_def push_job_def in_flight_def)
next
  fix h assume "next_handle (push_job u r c s) \<le> h"
  then show "jobs (push_job u r c s) h = None"
    using inv_fresh[OF I, of h] by (simp add: push_job_def)
next
  have "\<And>h. h \<in> set (pending_jobs s) \<Longrightarrow> h < next_handle s"
  proof -
    fix h assume h: "h \<in> set (pending_jobs s)"
    from inv_pending_job[OF I h] obtain j where "jobs s h = Some j" by blast
    then show "h < next_handle s" using inv_job[OF I] by (simp add: job_ok_def)
  qed
  then show "sorted_wrt (<) (pending_jobs (push_job u r c s))"
    using inv_sorted[OF I] by (simp add: push_job_def sorted_wrt_snoc)
next
  show "inv_thread (push_job u r c s)"
    using inv_thr[OF I] D by (auto simp add: inv_thread_def push_job_def)
qed (use I in \<open>simp_all add: push_job_def inv_sorted_starts\<close>)

lemma GetProxyForURL_eq:
  assumes "consistent s" "\<not> destroyed s"
  shows "GetProxyForURL u r (Some c) s =
           Inr (ERR_IO_PENDING, next_handle s, process_result (push_job u r c s))"
  using ProcessPendingJobs_eq[OF inv_push_job[OF assms, of u r c]]
  by (simp add: GetProxyForURL_def Job_ctor_def Let_def push_job_def)

lemma sorted_wrt_remove1: "sorted_wrt P xs \<Longrightarrow> sorted_wrt P (remove1 x xs)"
  by (induction xs) (auto dest: notin_set_remove1)

lemma inv_cancel_remove:
  assumes I: "consistent s" and J: "jobs s h = Some j" and P: "h \<in> set (pending_jobs s)"
  shows "consistent (cancel_remove h j s)"
proof -
  have D: "\<not> destroyed s" using inv_thr[OF I] P by (auto simp: inv_thread_def)
  show ?thesis
  proof (rule invI)
  fix h' j' assume A: "jobs (cancel_remove h j s) h' = Some j'"
  show "job_ok (cancel_remove h j s) h' j'"
  proof (cases "h' = h")
    case True
    then have j': "j' = j\<lparr>coordinator := False, callback := None, results := None\<rparr>"
      using A by (simp add: cancel_remove_def)
    have ok: "job_ok s h j" using inv_job[OF I J] .
    then have "job_st (pending_jobs s) (trace s) (in_flight s h) h j" by (simp add: job_ok_def)
    from job_st_cancel[OF this inv_sorted[OF I] P] ok show ?thesis unfolding True j'
      by (simp add: job_ok_def cancel_remove_def in_flight_def)
  next
    case False
    then have ok: "job_ok s h' j'" using A inv_job[OF I] by (simp add: cancel_remove_def)
    then have "job_st (pending_jobs s) (trace s) (in_flight s h') h' j'" by (simp add: job_ok_def)
    from job_st_remove[OF this, of h] False
    have "job_st (remove1 h (pending_jobs s)) (trace s) (in_flight s h') h' j'" by simp
    moreover have "\<not> concerns h' (EvJobCancel h)" using False by simp
    ultimately show ?thesis using ok job_st_event_other
      by (simp add: job_ok_def cancel_remove_def in_flight_def)
  qed
next
  fix h' assume A: "jobs (cancel_remove h j s) h' = None"
  then have ne: "h' \<noteq> h" by (auto simp: cancel_remove_def split: if_splits)
  then have "unalloc_ok s h'" using A inv_none[OF I] by (simp add: cancel_remove_def)
  then show "unalloc_ok (cancel_remove h j s) h'" using ne
    by (auto simp add: unalloc_ok_def cancel_remove_def in_flight_def dest: notin_set_remove1)
next
  fix h' assume "next_handle (cancel_remove h j s) \<le> h'"
  then have "jobs s h' = None" using inv_fresh[OF I, of h'] by (simp add: cancel_remove_def)
  then show "jobs (cancel_remove h j s) h' = None" using J by (auto simp add: cancel_remove_def)
next
  show "sorted_wrt (<) (pending_jobs (cancel_remove h j s))"
    using inv_sorted[OF I] by (simp add: cancel_remove_def sorted_wrt_remove1)
next
  show "inv_thread (cancel_remove h j s)"
    using inv_thr[OF I] D by (auto simp add: inv_thread_def cancel_remove_def)
qed (use I in \<open>simp_all add: cancel_remove_def inv_sorted_starts inv_next\<close>)
qed

lemma CancelRequest_eq:
  assumes I: "consistent s" and J: "jobs s req = Some j" and P: "req \<in> set (pending_jobs s)"
  shows "CancelRequest req s =
           Inr (if is_started j then process_result (cancel_remove req j s)
                else cancel_remove req j s)"
proof -
  have ok: "job_ok s req j" using inv_job[OF I J] .
  then have st: "job_st (pending_jobs s) (trace s) (in_flight s req) req j"
    and pos: "req \<noteq> 0" by (simp_all add: job_ok_def)
  obtain h rest where L: "pending_jobs s = h # rest" using P by (cases "pending_jobs s") auto
  have C: "Job_Cancel req s =
      Inr (s\<lparr>jobs := (jobs s)(req \<mapsto> j\<lparr>coordinator := False, callback := None, results := None\<rparr>),
             trace := trace s @ [EvJobCancel req]\<rparr>)"
    using J by (simp add: Job_Cancel_def)
  show ?thesis
  proof (cases "is_started j")
    case True
    have hd: "h = req" using st P True L job_st_pending_live[OF st P]
      by (simp add: job_st_def split: if_splits)
    have "ProcessPendingJobs (cancel_remove req j s) = Inr (process_result (cancel_remove req j s))"
      using ProcessPendingJobs_eq[OF inv_cancel_remove[OF I J P]] .
    moreover have "(s\<lparr>jobs := (jobs s)(req \<mapsto> j\<lparr>coordinator := False, callback := None, results := None\<rparr>),
             trace := trace s @ [EvJobCancel req], pending_jobs := rest\<rparr>) = cancel_remove req j s"
      using L hd by (simp add: cancel_remove_def)
    ultimately show ?thesis using True pos J L hd C
      by (simp add: CancelRequest_def RemoveFrontOfJobsQueueAndStartNext_def)
  next
    case False
    then show ?thesis using pos J P C
      by (simp add: CancelRequest_def cancel_remove_def)
  qed
qed

lemma CancelRequest_Inr:
  assumes "CancelRequest req s = Inr s'"
  shows "req \<in> set (pending_jobs s) \<and> (\<exists>j. jobs s req = Some j)"
  using assms
  by (cases "pending_jobs s")
     (auto simp add: CancelRequest_def Job_Cancel_def RemoveFrontOfJobsQueueAndStartNext_def
           split: if_splits option.splits sum.splits)

lemma inv_CancelRequest:
  assumes I: "consistent s" and C: "CancelRequest req s = Inr s'"
  shows "consistent s'"
proof -
  from CancelRequest_Inr[OF C] obtain j where J: "jobs s req = Some j"
    and P: "req \<in> set (pending_jobs s)" by blast
  have "consistent (cancel_remove req j s)" using inv_cancel_remove[OF I J P] .
  then show ?thesis using C CancelRequest_eq[OF I J P] inv_process_result
    by (auto split: if_splits)
qed

lemma inv_GetProxyForURL:
  assumes I: "consistent s" and D: "\<not> destroyed s" and G: "GetProxyForURL u r cb s = Inr (rv, h, s')"
  shows "consistent s'"
proof (cases cb)
  case None
  then show ?thesis using G by (simp add: GetProxyForURL_def)
next
  case (Some c)
  then show ?thesis
    using G GetProxyForURL_eq[OF I D, of u r c] inv_process_result[OF inv_push_job[OF I D]]
    by auto
qed

text \<open>Configuration: the task goes to the worker at once.\<close>

lemma SetPacScriptHelper_eq:
  "SetPacScriptHelper pac_url bytes s =
     s\<lparr>thread_started := True,
       trace := trace s @ (if thread_started s then [] else [EvThreadStart]),
       worker_loop := worker_loop s @ [SetPacScriptTask pac_url bytes]\<rparr>"
  by (simp add: SetPacScriptHelper_def Let_def EnsureThreadStarted_eq)

lemma inv_SetPacScriptHelper:
  assumes I: "consistent s" and D: "\<not> destroyed s"
  shows "consistent (SetPacScriptHelper pac_url bytes s)"
proof -
  let ?s1 = "EnsureThreadStarted s"
  have 1: "consistent ?s1" using inv_EnsureThreadStarted[OF I D] .
  have eq: "SetPacScriptHelper pac_url bytes s =
      ?s1\<lparr>worker_loop := worker_loop ?s1 @ [SetPacScriptTask pac_url bytes]\<rparr>" (is "_ = ?s2")
    by (simp add: SetPacScriptHelper_def Let_def)
  have "consistent ?s2"
  proof (rule invI)
    fix h j assume "jobs ?s2 h = Some j"
    then have "job_ok ?s1 h j" using inv_job[OF 1] by simp
    then show "job_ok ?s2 h j" by (simp add: job_ok_def in_flight_def)
  next
    fix h assume "jobs ?s2 h = None"
    then have "unalloc_ok ?s1 h" using inv_none[OF 1] by simp
    then show "unalloc_ok ?s2 h" by (simp add: unalloc_ok_def in_flight_def)
  next
    fix h assume "next_handle ?s2 \<le> h"
    then show "jobs ?s2 h = None" using inv_fresh[OF 1, of h] by simp
  next
    show "inv_thread ?s2" using inv_thr[OF 1] EnsureThreadStarted_started[of s]
      by (auto simp add: inv_thread_def)
  qed (use 1 in \<open>simp_all add: inv_next inv_sorted inv_sorted_starts\<close>)
  then show ?thesis using eq by simp
qed

text \<open>The worker.\<close>

lemma in_flight_allocated:
  assumes "consistent s" "0 < in_flight s h"
  obtains j where "jobs s h = Some j"
  using inv_none[OF assms(1), of h] assms(2) by (cases "jobs s h") (auto simp: unalloc_ok_def)

lemma worker_step_cases:
  assumes "worker_step w s = Inr s'"
  obtains (idle) "worker_loop s = []" "s' = s"
  | (query) h ts j where "worker_loop s = DoQuery h # ts" "jobs s h = Some j"
      "fst (engine w (engine_log s) (url j)) \<noteq> ERR_IO_PENDING" "s' = ran_query w h j ts s"
  | (config) pac_url bytes ts where "worker_loop s = SetPacScriptTask pac_url bytes # ts"
      "s' = ran_config w pac_url bytes ts s"
proof (cases "worker_loop s")
  case Nil
  then have "s' = s" using assms by (simp add: worker_step_def)
  with Nil idle show ?thesis by blast
next
  case (Cons t ts)
  show ?thesis
  proof (cases t)
    case (DoQuery h)
    then have "\<exists>j. jobs s h = Some j \<and> fst (engine w (engine_log s) (url j)) \<noteq> ERR_IO_PENDING \<and>
        s' = ran_query w h j ts s"
      using assms Cons
      by (auto simp add: worker_step_def Job_DoQuery_def ran_query_def Let_def
            split: option.splits prod.splits if_splits)
    then show ?thesis using Cons DoQuery query by blast
  next
    case (SetPacScriptTask pac_url bytes)
    then have "s' = ran_config w pac_url bytes ts s"
      using assms Cons
      by (auto simp add: worker_step_def SetPacScriptTask_Run_def ran_config_def)
    then show ?thesis using Cons SetPacScriptTask config by blast
  qed
qed

lemma inv_ran_config:
  assumes I: "consistent s" and L: "worker_loop s = SetPacScriptTask pac_url bytes # ts"
  shows "consistent (ran_config w pac_url bytes ts s)" (is "consistent ?s'")
proof (rule invI)
  fix h j assume "jobs ?s' h = Some j"
  then have "job_ok s h j" using inv_job[OF I] by (simp add: ran_config_def)
  then show "job_ok ?s' h j" using L job_st_event_other[of h "EvRun (SetPacScriptTask pac_url bytes)"]
    by (simp add: job_ok_def in_flight_def ran_config_def)
next
  fix h assume "jobs ?s' h = None"
  then have "unalloc_ok s h" using inv_none[OF I] by (simp add: ran_config_def)
  then show "unalloc_ok ?s' h" using L
    by (simp add: unalloc_ok_def in_flight_def ran_config_def)
next
  fix h assume "next_handle ?s' \<le> h"
  then show "jobs ?s' h = None" using inv_fresh[OF I, of h] by (simp add: ran_config_def)
next
  show "inv_thread ?s'" using inv_thr[OF I] L by (auto simp add: inv_thread_def ran_config_def)
qed (use I in \<open>simp_all add: ran_config_def inv_next inv_sorted inv_sorted_starts\<close>)

lemma inv_ran_query:
  assumes I: "consistent s" and L: "worker_loop s = DoQuery h # ts" and J: "jobs s h = Some j"
  shows "consistent (ran_query w h j ts s)" (is "consistent ?s'")
proof (rule invI)
  have fl: "\<And>h'. in_flight ?s' h' = in_flight s h'"
    using L by (simp add: in_flight_def ran_query_def)
  fix h' j' assume A: "jobs ?s' h' = Some j'"
  show "job_ok ?s' h' j'"
  proof (cases "h' = h")
    case True
    then have j': "j' = j\<lparr>results_buf := snd (engine w (engine_log s) (url j))\<rparr>"
      using A by (simp add: ran_query_def)
    have "job_ok s h j" using inv_job[OF I J] .
    then show ?thesis unfolding True j' job_ok_def fl
      using job_st_event_other[of h "EvRun (DoQuery h)"]
      by (simp add: ran_query_def job_st_buf)
  next
    case False
    then have "job_ok s h' j'" using A inv_job[OF I] by (simp add: ran_query_def)
    then show ?thesis unfolding job_ok_def fl
      using job_st_event_other[of h' "EvRun (DoQuery h)"]
      by (simp add: ran_query_def)
  qed
next
  fix h' assume A: "jobs ?s' h' = None"
  then have "h' \<noteq> h" by (auto simp: ran_query_def split: if_splits)
  then have "unalloc_ok s h'" using A inv_none[OF I] by (simp add: ran_query_def)
  then show "unalloc_ok ?s' h'" using L \<open>h' \<noteq> h\<close>
    by (simp add: unalloc_ok_def in_flight_def ran_query_def)
next
  fix h' assume "next_handle ?s' \<le> h'"
  then have "jobs s h' = None" using inv_fresh[OF I, of h'] by (simp add: ran_query_def)
  then show "jobs ?s' h' = None" using J by (auto simp add: ran_query_def)
next
  show "inv_thread ?s'" using inv_thr[OF I] L by (auto simp add: inv_thread_def ran_query_def)
qed (use I in \<open>simp_all add: ran_query_def inv_next inv_sorted inv_sorted_starts\<close>)

lemma inv_worker_step:
  assumes "consistent s" "worker_step w s = Inr s'"
  shows "consistent s'"
  using assms(2)
  by (cases rule: worker_step_cases) (use assms(1) inv_ran_query inv_ran_config in auto)

section \<open>How a step changes the state\<close>

lemma new_events_eq: "trace s' = trace s @ ev \<Longrightarrow> new_events s s' = ev"
  by (simp add: new_events_def)

lemma evolvesI:
  assumes "trace s' = trace s @ ev"
    and "\<And>h j. jobs s h = Some j \<Longrightarrow>
           \<exists>j'. jobs s' h = Some j' \<and>
                (was_cancelled j \<longrightarrow> was_cancelled j' \<and> (\<forall>e \<in> set ev. quiet h e))"
    and "\<exists>post. timeline s' = timeline s @ post"
  shows "evolves s s'"
  unfolding evolves_def new_events_eq[OF assms(1)] using assms by blast

lemma keptI:
  assumes "trace s' = trace s @ ev"
    and "\<And>h j. jobs s h = Some j \<Longrightarrow>
           \<exists>j'. jobs s' h = Some j' \<and>
                (was_cancelled j \<longrightarrow> was_cancelled j' \<and> (\<forall>e \<in> set ev. quiet h e))"
    and "\<exists>post. timeline s' = timeline s @ post"
    and "memory s' = memory s"
    and "\<And>e. e \<in> set ev \<Longrightarrow> api_event e"
    and "\<And>h j j'. jobs s h = Some j \<Longrightarrow> jobs s' h = Some j' \<Longrightarrow>
           h \<in> set (pending_jobs s) \<Longrightarrow> \<not> was_cancelled j' \<Longrightarrow> h \<in> set (pending_jobs s')"
  shows "kept s s'"
  unfolding kept_def new_events_eq[OF assms(1)]
  using evolvesI[OF assms(1,2,3)] assms(4-6) by blast

lemma evolves_refl: "evolves s s"
  by (rule evolvesI[of _ _ "[]"]) auto

lemma kept_refl: "kept s s"
  by (rule keptI[of _ _ "[]"]) auto

lemma new_events_trans:
  assumes "trace s1 = trace s0 @ new_events s0 s1" "trace s2 = trace s1 @ new_events s1 s2"
  shows "new_events s0 s2 = new_events s0 s1 @ new_events s1 s2"
proof -
  have "trace s2 = trace s0 @ (new_events s0 s1 @ new_events s1 s2)"
    using assms by (metis append.assoc)
  then show ?thesis by (rule new_events_eq)
qed

lemma evolves_trans:
  assumes A: "evolves s0 s1" and B: "evolves s1 s2"
  shows "evolves s0 s2"
proof (rule evolvesI[of _ _ "new_events s0 s1 @ new_events s1 s2"])
  show "trace s2 = trace s0 @ new_events s0 s1 @ new_events s1 s2"
    using A B by (simp add: evolves_def)
next
  fix h j assume J: "jobs s0 h = Some j"
  from A J obtain j1 where j1: "jobs s1 h = Some j1"
    "was_cancelled j \<longrightarrow> was_cancelled j1 \<and> (\<forall>e \<in> set (new_events s0 s1). quiet h e)"
    unfolding evolves_def by blast
  from B j1(1) obtain j2 where j2: "jobs s2 h = Some j2"
    "was_cancelled j1 \<longrightarrow> was_cancelled j2 \<and> (\<forall>e \<in> set (new_events s1 s2). quiet h e)"
    unfolding evolves_def by blast
  show "\<exists>j'. jobs s2 h = Some j' \<and>
          (was_cancelled j \<longrightarrow>
             was_cancelled j' \<and> (\<forall>e \<in> set (new_events s0 s1 @ new_events s1 s2). quiet h e))"
    using j1 j2 by auto
next
  from A obtain p1 where "timeline s1 = timeline s0 @ p1" unfolding evolves_def by blast
  moreover from B obtain p2 where "timeline s2 = timeline s1 @ p2" unfolding evolves_def by blast
  ultimately have "timeline s2 = timeline s0 @ (p1 @ p2)" by simp
  then show "\<exists>post. timeline s2 = timeline s0 @ post" by blast
qed

lemma kept_evolves: "kept s s' \<Longrightarrow> evolves s s'"
  by (simp add: kept_def)

lemma kept_trans:
  assumes A: "kept s0 s1" and B: "kept s1 s2"
  shows "kept s0 s2"
proof -
  have E: "evolves s0 s2"
    using evolves_trans[OF kept_evolves[OF A] kept_evolves[OF B]] .
  have N: "new_events s0 s2 = new_events s0 s1 @ new_events s1 s2"
    using A B by (intro new_events_trans) (simp_all add: kept_def evolves_def)
  have P: "\<And>h j j'. jobs s0 h = Some j \<Longrightarrow> jobs s2 h = Some j' \<Longrightarrow>
      h \<in> set (pending_jobs s0) \<Longrightarrow> \<not> was_cancelled j' \<Longrightarrow> h \<in> set (pending_jobs s2)"
  proof -
    fix h j j'
    assume h: "jobs s0 h = Some j" "jobs s2 h = Some j'" "h \<in> set (pending_jobs s0)"
      "\<not> was_cancelled j'"
    from kept_evolves[OF A] h(1) obtain j1 where j1: "jobs s1 h = Some j1"
      unfolding evolves_def by blast
    have "\<not> was_cancelled j1" using kept_evolves[OF B] j1 h(2,4) unfolding evolves_def by fastforce
    then have "h \<in> set (pending_jobs s1)" using A h(1,3) j1 unfolding kept_def by blast
    then show "h \<in> set (pending_jobs s2)" using B j1 h(2,4) unfolding kept_def by blast
  qed
  show ?thesis unfolding kept_def N using E A B P by (auto simp: kept_def)
qed

lemma kept_process_result:
  assumes I: "consistent s"
  shows "kept s (process_result s)"
proof (cases "pending_jobs s")
  case Nil
  then show ?thesis by (simp add: process_result_def kept_refl)
next
  case (Cons h rest)
  then have "h \<in> set (pending_jobs s)" by simp
  from inv_pending_job[OF I this] obtain j where j: "jobs s h = Some j" "\<not> was_cancelled j"
    by blast
  show ?thesis
  proof (cases "is_started j")
    case True
    then show ?thesis using Cons j by (simp add: process_result_def kept_refl)
  next
    case False
    have eq: "process_result s = start_job h j s"
      using Cons j False by (simp add: process_result_def)
    show ?thesis unfolding eq
    proof (rule keptI[of _ _ "(if thread_started s then [] else [EvThreadStart]) @ [EvJobStart h]"])
      fix h' j' assume "jobs s h' = Some j'"
      then show "\<exists>j''. jobs (start_job h j s) h' = Some j'' \<and>
          (was_cancelled j' \<longrightarrow> was_cancelled j'' \<and>
             (\<forall>e\<in>set ((if thread_started s then [] else [EvThreadStart]) @ [EvJobStart h]). quiet h' e))"
        using j by (auto simp add: start_job_def was_cancelled_def split: if_splits)
    qed (auto simp add: start_job_def EnsureThreadStarted_eq timeline_def split: if_splits)
  qed
qed

lemma kept_push_job:
  assumes I: "consistent s"
  shows "kept s (push_job u r c s)"
proof (rule keptI[of _ _ "[]"])
  have N: "jobs s (next_handle s) = None" using inv_fresh[OF I] by simp
  fix h j assume "jobs s h = Some j"
  then show "\<exists>j'. jobs (push_job u r c s) h = Some j' \<and>
      (was_cancelled j \<longrightarrow> was_cancelled j' \<and> (\<forall>e\<in>set []. quiet h e))"
    using N by (auto simp add: push_job_def)
qed (auto simp add: push_job_def timeline_def)

lemma kept_cancel_remove:
  assumes J: "jobs s h = Some j"
  shows "kept s (cancel_remove h j s)"
proof (rule keptI[of _ _ "[EvJobCancel h]"])
  fix h' j' assume "jobs s h' = Some j'"
  then show "\<exists>j''. jobs (cancel_remove h j s) h' = Some j'' \<and>
      (was_cancelled j' \<longrightarrow> was_cancelled j'' \<and> (\<forall>e\<in>set [EvJobCancel h]. quiet h' e))"
    by (auto simp add: cancel_remove_def was_cancelled_def)
next
  fix h' j' j'' assume "jobs s h' = Some j'" "jobs (cancel_remove h j s) h' = Some j''"
    "h' \<in> set (pending_jobs s)" "\<not> was_cancelled j''"
  then show "h' \<in> set (pending_jobs (cancel_remove h j s))"
    by (auto simp add: cancel_remove_def was_cancelled_def split: if_splits)
qed (auto simp add: cancel_remove_def timeline_def)

lemma kept_SetPacScriptHelper: "kept s (SetPacScriptHelper pac_url bytes s)"
  by (rule keptI[of _ _ "if thread_started s then [] else [EvThreadStart]"])
     (auto simp add: SetPacScriptHelper_eq timeline_def split: if_splits)

lemma kept_ran_config:
  "worker_loop s = SetPacScriptTask pac_url bytes # ts \<Longrightarrow>
   kept s (ran_config w pac_url bytes ts s)"
  by (rule keptI[of _ _ "[EvRun (SetPacScriptTask pac_url bytes)]"])
     (auto simp add: ran_config_def timeline_def)

lemma kept_ran_query:
  assumes "jobs s h = Some j" "worker_loop s = DoQuery h # ts"
  shows "kept s (ran_query w h j ts s)"
proof (rule keptI[of _ _ "[EvRun (DoQuery h)]"])
  fix h' j' assume "jobs s h' = Some j'"
  then show "\<exists>j''. jobs (ran_query w h j ts s) h' = Some j'' \<and>
      (was_cancelled j' \<longrightarrow> was_cancelled j'' \<and> (\<forall>e\<in>set [EvRun (DoQuery h)]. quiet h' e))"
    using assms by (auto simp add: ran_query_def was_cancelled_def)
qed (use assms(2) in \<open>auto simp add: ran_query_def timeline_def\<close>)

lemma kept_worker_step:
  assumes "worker_step w s = Inr s'"
  shows "kept s s'"
  using assms
  by (cases rule: worker_step_cases) (use kept_refl kept_ran_query kept_ran_config in auto)

lemma kept_GetProxyForURL:
  assumes I: "consistent s" and D: "\<not> destroyed s" and G: "GetProxyForURL u r cb s = Inr (rv, h, s')"
  shows "kept s s'"
proof (cases cb)
  case None
  then show ?thesis using G by (simp add: GetProxyForURL_def)
next
  case (Some c)
  have "kept s (process_result (push_job u r c s))"
    using kept_trans[OF kept_push_job[OF I] kept_process_result[OF inv_push_job[OF I D]]] .
  then show ?thesis using Some G GetProxyForURL_eq[OF I D, of u r c] by auto
qed

lemma kept_CancelRequest:
  assumes I: "consistent s" and C: "CancelRequest req s = Inr s'"
  shows "kept s s'"
proof -
  from CancelRequest_Inr[OF C] obtain j where J: "jobs s req = Some j"
    and P: "req \<in> set (pending_jobs s)" by blast
  have 1: "kept s (cancel_remove req j s)" using kept_cancel_remove[OF J] .
  have 2: "kept s (process_result (cancel_remove req j s))"
    using kept_trans[OF 1 kept_process_result[OF inv_cancel_remove[OF I J P]]] .
  show ?thesis using C CancelRequest_eq[OF I J P] 1 2 by (auto split: if_splits)
qed

section \<open>The destructor preserves the invariant\<close>

lemma cancel_all_pending_upd:
  "cancel_all hs s = Inr s' \<Longrightarrow> cancel_all hs (s\<lparr>pending_jobs := p\<rparr>) = Inr (s'\<lparr>pending_jobs := p\<rparr>)"
proof (induction hs arbitrary: s)
  case Nil
  then show ?case by simp
next
  case (Cons h hs)
  show ?case
  proof (cases "jobs s h")
    case None
    then show ?thesis using Cons.prems by (simp add: Job_Cancel_def)
  next
    case (Some j)
    let ?sc = "s\<lparr>jobs := (jobs s)(h \<mapsto> j\<lparr>coordinator := False, callback := None, results := None\<rparr>),
                 trace := trace s @ [EvJobCancel h]\<rparr>"
    have 1: "cancel_all hs ?sc = Inr s'" using Cons.prems Some by (simp add: Job_Cancel_def)
    have 2: "Job_Cancel h (s\<lparr>pending_jobs := p\<rparr>) = Inr (?sc\<lparr>pending_jobs := p\<rparr>)"
      using Some by (simp add: Job_Cancel_def)
    show ?thesis using Cons.IH[OF 1] unfolding cancel_all.simps 2 by simp
  qed
qed

lemma cancel_all_props:
  assumes "consistent s" "pending_jobs s = hs"
  shows "\<exists>s1. cancel_all hs s = Inr s1 \<and> consistent (s1\<lparr>pending_jobs := []\<rparr>) \<and>
           kept s (s1\<lparr>pending_jobs := []\<rparr>) \<and>
           trace s1 = trace s @ map EvJobCancel hs \<and>
           worker_loop s1 = worker_loop s \<and> origin_loop s1 = origin_loop s \<and>
           thread_started s1 = thread_started s \<and> destroyed s1 = destroyed s \<and>
           engine_log s1 = engine_log s \<and> next_handle s1 = next_handle s \<and>
           (\<forall>h \<in> set hs. \<exists>j. jobs s1 h = Some j \<and> was_cancelled j)"
  using assms
proof (induction hs arbitrary: s)
  case Nil
  have eq: "s\<lparr>pending_jobs := []\<rparr> = s" using Nil by simp
  show ?case by (rule exI[of _ s]) (simp add: eq Nil(1) kept_refl)
next
  case (Cons h rest)
  have P: "h \<in> set (pending_jobs s)" using Cons.prems by simp
  from inv_pending_job[OF Cons.prems(1) P] obtain j where J: "jobs s h = Some j" by blast
  let ?j' = "j\<lparr>coordinator := False, callback := None, results := None\<rparr>"
  let ?sc = "s\<lparr>jobs := (jobs s)(h \<mapsto> ?j'), trace := trace s @ [EvJobCancel h]\<rparr>"
  let ?s' = "cancel_remove h j s"
  have C: "Job_Cancel h s = Inr ?sc" using J by (simp add: Job_Cancel_def)
  have I': "consistent ?s'" using inv_cancel_remove[OF Cons.prems(1) J P] .
  have P': "pending_jobs ?s' = rest" using Cons.prems(2) by (simp add: cancel_remove_def)
  from Cons.IH[OF I' P'] obtain s1 where s1: "cancel_all rest ?s' = Inr s1"
    "consistent (s1\<lparr>pending_jobs := []\<rparr>)" "kept ?s' (s1\<lparr>pending_jobs := []\<rparr>)"
    "trace s1 = trace ?s' @ map EvJobCancel rest"
    "worker_loop s1 = worker_loop ?s'" "origin_loop s1 = origin_loop ?s'"
    "thread_started s1 = thread_started ?s'" "destroyed s1 = destroyed ?s'"
    "engine_log s1 = engine_log ?s'" "next_handle s1 = next_handle ?s'"
    "\<forall>h \<in> set rest. \<exists>j. jobs s1 h = Some j \<and> was_cancelled j" by blast
  have sc: "?sc = ?s'\<lparr>pending_jobs := h # rest\<rparr>"
    using Cons.prems(2) by (simp add: cancel_remove_def)
  have run: "cancel_all rest ?sc = Inr (s1\<lparr>pending_jobs := h # rest\<rparr>)"
    unfolding sc using cancel_all_pending_upd[OF s1(1)] .
  have K: "kept s (s1\<lparr>pending_jobs := []\<rparr>)"
    using kept_trans[OF kept_cancel_remove[OF J] s1(3)] .
  have hc: "\<exists>j. jobs s1 h = Some j \<and> was_cancelled j"
  proof -
    have "jobs ?s' h = Some ?j'" "was_cancelled ?j'"
      by (simp_all add: cancel_remove_def was_cancelled_def)
    then show ?thesis using kept_evolves[OF s1(3)] unfolding evolves_def by fastforce
  qed
  show ?case
    using C run s1 K hc by (simp add: cancel_remove_def)
qed

lemma drain_props:
  assumes "consistent s" "drain w n s = Inr s'" "n = length (worker_loop s)"
  shows "consistent s' \<and> kept s s' \<and> worker_loop s' = [] \<and>
         trace s' = trace s @ map EvRun (worker_loop s) \<and>
         pending_jobs s' = pending_jobs s \<and> thread_started s' = thread_started s \<and>
         destroyed s' = destroyed s \<and> next_handle s' = next_handle s"
  using assms
proof (induction n arbitrary: s)
  case 0
  then show ?case using kept_refl by simp
next
  case (Suc n)
  from Suc.prems(2) obtain s1 where s1: "worker_step w s = Inr s1" "drain w n s1 = Inr s'"
    by (auto split: sum.splits)
  obtain t ts where L: "worker_loop s = t # ts" using Suc.prems(3) by (cases "worker_loop s") auto
  have F: "worker_loop s1 = ts \<and> trace s1 = trace s @ [EvRun t] \<and>
      pending_jobs s1 = pending_jobs s \<and> thread_started s1 = thread_started s \<and>
      destroyed s1 = destroyed s \<and> next_handle s1 = next_handle s"
    using s1(1) L by (cases rule: worker_step_cases) (auto simp: ran_query_def ran_config_def)
  have n: "n = length (worker_loop s1)" using F L Suc.prems(3) by simp
  from Suc.IH[OF inv_worker_step[OF Suc.prems(1) s1(1)] s1(2) n]
  show ?case using F L kept_trans[OF kept_worker_step[OF s1(1)]] by auto
qed

lemma Destructor_props:
  assumes I: "consistent s" and D: "Destructor w s = Inr s'"
  shows "consistent s' \<and> kept s s' \<and> destroyed s' \<and>
         trace s' = trace s @ map EvJobCancel (pending_jobs s) @ map EvRun (worker_loop s) @
            (if thread_started s then [EvThreadStop] else []) @ [EvResolverFree] \<and>
         (\<forall>h \<in> set (pending_jobs s). \<exists>j. jobs s' h = Some j \<and> was_cancelled j \<and>
              \<not> coordinator j \<and> results j = None)"
proof -
  from cancel_all_props[OF I refl] obtain s1 where s1:
    "cancel_all (pending_jobs s) s = Inr s1" "consistent (s1\<lparr>pending_jobs := []\<rparr>)"
    "kept s (s1\<lparr>pending_jobs := []\<rparr>)"
    "trace s1 = trace s @ map EvJobCancel (pending_jobs s)"
    "worker_loop s1 = worker_loop s" "thread_started s1 = thread_started s"
    "destroyed s1 = destroyed s"
    "\<forall>h \<in> set (pending_jobs s). \<exists>j. jobs s1 h = Some j \<and> was_cancelled j" by blast
  let ?s1 = "s1\<lparr>pending_jobs := []\<rparr>"
  have "\<exists>s2. Thread_destroy w ?s1 = Inr (s2\<lparr>thread_started := False,
          trace := trace s2 @ (if thread_started s then [EvThreadStop] else [])\<rparr>) \<and>
        consistent s2 \<and> kept ?s1 s2 \<and> worker_loop s2 = [] \<and>
        trace s2 = trace ?s1 @ map EvRun (worker_loop s) \<and> pending_jobs s2 = [] \<and>
        thread_started s2 = thread_started s"
  proof (cases "thread_started s")
    case False
    then have "worker_loop s = []" using inv_thr[OF I] by (auto simp: inv_thread_def)
    moreover have "?s1\<lparr>thread_started := False, trace := trace ?s1 @ []\<rparr> = ?s1"
      using False s1(6) by simp
    ultimately show ?thesis using False s1 kept_refl
      by (intro exI[of _ ?s1]) (simp add: Thread_destroy_def)
  next
    case True
    then obtain s2 where s2: "drain w (length (worker_loop ?s1)) ?s1 = Inr s2"
      using D s1 by (auto simp add: Destructor_def destroy_members_def Thread_destroy_def split: sum.splits)
    from drain_props[OF s1(2) s2 refl] show ?thesis using True s1 s2
      by (intro exI[of _ s2]) (simp add: Thread_destroy_def)
  qed
  then obtain s2 where s2: "Thread_destroy w ?s1 = Inr (s2\<lparr>thread_started := False,
          trace := trace s2 @ (if thread_started s then [EvThreadStop] else [])\<rparr>)"
    "consistent s2" "kept ?s1 s2" "worker_loop s2 = []"
    "trace s2 = trace ?s1 @ map EvRun (worker_loop s)" "pending_jobs s2 = []"
    "thread_started s2 = thread_started s" by blast
  have eq: "s' = torn_down s s2"
    using D s1(1) s2(1) by (simp add: Destructor_def destroy_members_def torn_down_def)
  have I2: "consistent (torn_down s s2)"
  proof (rule invI)
    fix h j assume "jobs (torn_down s s2) h = Some j"
    then have "job_ok s2 h j" using inv_job[OF s2(2)] by (simp add: torn_down_def)
    then show "job_ok (torn_down s s2) h j"
      using job_st_event_other[of h EvThreadStop] job_st_event_other[of h EvResolverFree]
      by (simp add: job_ok_def torn_down_def in_flight_def flip: append_assoc)
  next
    fix h assume "jobs (torn_down s s2) h = None"
    then have "unalloc_ok s2 h" using inv_none[OF s2(2)] by (simp add: torn_down_def)
    then show "unalloc_ok (torn_down s s2) h"
      by (simp add: unalloc_ok_def torn_down_def in_flight_def)
  next
    fix h assume "next_handle (torn_down s s2) \<le> h"
    then show "jobs (torn_down s s2) h = None"
      using inv_fresh[OF s2(2), of h] by (simp add: torn_down_def)
  next
    show "inv_thread (torn_down s s2)"
      using inv_thr[OF s2(2)] s2(4,6,7)
      by (auto simp add: inv_thread_def torn_down_def)
  qed (use s2(2) in \<open>simp_all add: torn_down_def inv_next inv_sorted inv_sorted_starts\<close>)
  have K2: "kept s2 (torn_down s s2)"
    by (rule keptI[of _ _ "(if thread_started s then [EvThreadStop] else []) @ [EvResolverFree]"])
       (auto simp add: torn_down_def timeline_def split: if_splits)
  have K: "kept s (torn_down s s2)"
    using kept_trans[OF kept_trans[OF s1(3) s2(3)] K2] .
  have T: "trace (torn_down s s2) = trace s @ map EvJobCancel (pending_jobs s) @
      map EvRun (worker_loop s) @ (if thread_started s then [EvThreadStop] else []) @ [EvResolverFree]"
    using s1(4) s2(5) by (simp add: torn_down_def)
  have C: "\<forall>h \<in> set (pending_jobs s). \<exists>j. jobs (torn_down s s2) h = Some j \<and> was_cancelled j \<and>
              \<not> coordinator j \<and> results j = None"
  proof
    fix h assume "h \<in> set (pending_jobs s)"
    then obtain j1 where j1: "jobs ?s1 h = Some j1" "was_cancelled j1" using s1(8) by auto
    then obtain j2 where j2: "jobs (torn_down s s2) h = Some j2" "was_cancelled j2"
      using kept_evolves[OF kept_trans[OF s2(3) K2]] unfolding evolves_def by fastforce
    from inv_job[OF I2 j2(1)] j2 show "\<exists>j. jobs (torn_down s s2) h = Some j \<and> was_cancelled j \<and>
              \<not> coordinator j \<and> results j = None"
      by (simp add: job_ok_def job_st_def)
  qed
  show ?thesis unfolding eq using I2 K T C by (simp add: torn_down_def)
qed

section \<open>Calls of the interface\<close>

lemma call_api_props:
  assumes I: "consistent s" and C: "call_api w a s = Inr s'"
  shows "consistent s' \<and> kept s s'"
proof -
  have D: "\<not> destroyed s" using C by (auto split: if_splits)
  show ?thesis
  proof (cases a)
    case (CallGetProxyForURL u r cb)
    then obtain rv h where "GetProxyForURL u r cb s = Inr (rv, h, s')"
      using C D by (auto split: sum.splits)
    then show ?thesis using inv_GetProxyForURL[OF I D] kept_GetProxyForURL[OF I D] by blast
  next
    case (CallCancelRequest req)
    then have "CancelRequest req s = Inr s'" using C D by simp
    then show ?thesis using inv_CancelRequest[OF I] kept_CancelRequest[OF I] by blast
  next
    case (CallSetPacScriptByUrl pac_url)
    then have "s' = SetPacScriptHelper pac_url [] s"
      using C D by (simp add: SetPacScriptByUrlInternal_def)
    then show ?thesis using inv_SetPacScriptHelper[OF I D] kept_SetPacScriptHelper by simp
  next
    case (CallSetPacScriptByData bytes)
    then have "s' = SetPacScriptHelper [] bytes s"
      using C D by (simp add: SetPacScriptByDataInternal_def)
    then show ?thesis using inv_SetPacScriptHelper[OF I D] kept_SetPacScriptHelper by simp
  next
    case CallDestroy
    then have "Destructor w s = Inr s'" using C D by simp
    then show ?thesis using Destructor_props[OF I] by blast
  qed
qed

lemma call_apis_props:
  assumes "consistent s" "call_apis w as s = Inr s'"
  shows "consistent s' \<and> kept s s'"
  using assms
proof (induction as arbitrary: s)
  case Nil
  then show ?case using kept_refl by simp
next
  case (Cons a as)
  from Cons.prems(2) obtain s1 where s1: "call_api w a s = Inr s1" "call_apis w as s1 = Inr s'"
    by (auto split: sum.splits)
  from call_api_props[OF Cons.prems(1) s1(1)] have 1: "consistent s1" "kept s s1" by simp_all
  from Cons.IH[OF 1(1) s1(2)] show ?case using kept_trans[OF 1(2)] by blast
qed

section \<open>Completion on the origin thread\<close>

lemma QueryComplete_cancelled:
  "jobs s h = Some j \<Longrightarrow> was_cancelled j \<Longrightarrow> Job_QueryComplete w h rv s = Inr s"
  by (simp add: Job_QueryComplete_def)

lemma QueryComplete_live:
  assumes "jobs s h = Some j" "\<not> was_cancelled j" "results j \<noteq> None"
  shows "Job_QueryComplete w h rv s =
     (case call_apis w (on_complete w (the (callback j)) rv) (begin_callback h j rv s) of
        Inl e \<Rightarrow> Inl e
      | Inr s2 \<Rightarrow>
          (case jobs s2 h of
             None \<Rightarrow> Inl BadHandle
           | Some j2 \<Rightarrow>
               if \<not> was_cancelled j2 then
                 (if \<not> coordinator j2 then Inl NullDeref
                  else if destroyed s2 then Inl UseAfterFree
                  else RemoveFrontOfJobsQueueAndStartNext h
                         (s2\<lparr>trace := trace s2 @ [EvAdvance h]\<rparr>))
               else Inr s2))"
  using assms
  by (auto simp add: Job_QueryComplete_def Results_Use_def Callback_Run_def begin_callback_def)

lemma job_st_after_callback:
  "job_st pend tr fl h j \<Longrightarrow> \<not> was_cancelled j \<Longrightarrow> h \<in> set pend \<Longrightarrow>
   1 \<le> callback_runs tr h \<Longrightarrow>
   is_started j \<and> hd pend = h \<and> callback_runs tr h = 1 \<and> coordinator j"
  unfolding job_st_def by (auto split: if_splits)

lemma inv_popped_cancelled:
  assumes I: "consistent s" and L: "origin_loop s = (h, rv) # rest" and J: "jobs s h = Some j"
    and C: "was_cancelled j"
  shows "consistent (s\<lparr>origin_loop := rest\<rparr>)" (is "consistent ?s'")
proof (rule invI)
  fix h' j' assume A: "jobs ?s' h' = Some j'"
  then have ok: "job_ok s h' j'" using inv_job[OF I] by simp
  show "job_ok ?s' h' j'"
  proof (cases "h' = h")
    case True
    then have "j' = j" using A J by simp
    have "in_flight s h = Suc (in_flight ?s' h)" using L by (simp add: in_flight_def)
    then have "job_st (pending_jobs s) (trace s) (Suc (in_flight ?s' h)) h j"
      using ok True \<open>j' = j\<close> by (simp add: job_ok_def)
    from job_st_pop_cancelled[OF this C] show ?thesis using ok True \<open>j' = j\<close>
      by (simp add: job_ok_def)
  next
    case False
    then have "in_flight ?s' h' = in_flight s h'" using L by (simp add: in_flight_def)
    then show ?thesis using ok by (simp add: job_ok_def)
  qed
next
  fix h' assume "jobs ?s' h' = None"
  then have "unalloc_ok s h'" using inv_none[OF I] by simp
  then show "unalloc_ok ?s' h'" using L
    by (auto simp add: unalloc_ok_def in_flight_def split: if_splits)
next
  fix h' assume "next_handle ?s' \<le> h'"
  then show "jobs ?s' h' = None" using inv_fresh[OF I, of h'] by simp
next
  show "inv_thread ?s'" using inv_thr[OF I] by (auto simp add: inv_thread_def)
qed (use I in \<open>simp_all add: inv_next inv_sorted inv_sorted_starts\<close>)

lemma inv_begin_callback:
  assumes I: "consistent s" and L: "origin_loop s = (h, rv) # rest" and J: "jobs s h = Some j"
    and C: "\<not> was_cancelled j"
  shows "consistent (begin_callback h j rv (s\<lparr>origin_loop := rest\<rparr>)) \<and>
         pending_jobs s \<noteq> [] \<and> hd (pending_jobs s) = h \<and> results j \<noteq> None \<and>
         callback_runs (trace (begin_callback h j rv (s\<lparr>origin_loop := rest\<rparr>))) h = 1"
proof -
  let ?s0 = "s\<lparr>origin_loop := rest\<rparr>"
  let ?d = "begin_callback h j rv ?s0"
  let ?c = "the (callback j)"
  let ?u = "EvUse h (the (results j)) (results_buf j)"
  have ok: "job_ok s h j" using inv_job[OF I J] .
  have fl: "in_flight s h = Suc (in_flight ?s0 h)" using L by (simp add: in_flight_def)
  have fld: "\<And>h'. in_flight ?d h' = in_flight ?s0 h'"
    by (simp add: begin_callback_def in_flight_def)
  have st: "job_st (pending_jobs s) (trace s) (Suc (in_flight ?s0 h)) h j"
    using ok fl by (simp add: job_ok_def)
  from job_st_pop_live[OF st C]
  have pl: "in_flight ?s0 h = 0" "pending_jobs s \<noteq> []" "hd (pending_jobs s) = h"
    "callback_runs (trace s) h = 0"
    by simp_all
  have res: "results j \<noteq> None" using st C by (simp add: job_st_def)
  have tr: "trace ?d = trace s @ (if rv \<ge> OK then [?u] else []) @ [EvCallbackRun h ?c rv]"
    by (simp add: begin_callback_def)
  have stu: "\<And>pend fl h' j'. job_st pend (trace s @ (if rv \<ge> OK then [?u] else [])) fl h' j' =
      job_st pend (trace s) fl h' j'"
    using job_st_event_other[of _ ?u] by simp
  have runs: "callback_runs (trace ?d) h = 1" using pl(4) by (simp add: tr)
  have "consistent ?d"
  proof (rule invI)
    fix h' j' assume A: "jobs ?d h' = Some j'"
    then have A': "jobs s h' = Some j'" by (simp add: begin_callback_def split: if_splits)
    then have ok': "job_ok s h' j'" using inv_job[OF I] by simp
    show "job_ok ?d h' j'"
    proof (cases "h' = h")
      case True
      then have jj: "j' = j" using A' J by simp
      have "job_st (pending_jobs s) (trace ?d) (in_flight ?s0 h) h j"
      proof -
        have "job_st (pending_jobs s) (trace s) (Suc (in_flight ?s0 h)) h j" using st .
        then have "job_st (pending_jobs s) (trace s @ (if rv \<ge> OK then [?u] else []))
            (Suc (in_flight ?s0 h)) h j" using stu by simp
        from job_st_run_callback[OF this C, of ?c rv] show ?thesis by (simp add: tr)
      qed
      then show ?thesis using ok unfolding True jj job_ok_def fld
        by (simp add: begin_callback_def)
    next
      case False
      then have f: "in_flight ?s0 h' = in_flight s h'" using L by (simp add: in_flight_def)
      have "\<not> concerns h' (EvCallbackRun h ?c rv)" using False by simp
      from job_st_event_other[OF this] stu
      have "job_st (pending_jobs s) (trace ?d) (in_flight s h') h' j' =
            job_st (pending_jobs s) (trace s) (in_flight s h') h' j'"
        by (simp add: tr flip: append_assoc)
      then show ?thesis using ok' unfolding job_ok_def fld f
        by (simp add: begin_callback_def)
    qed
  next
    fix h' assume A: "jobs ?d h' = None"
    then have A': "jobs s h' = None" by (simp add: begin_callback_def split: if_splits)
    then have u: "unalloc_ok s h'" using inv_none[OF I] by simp
    have ne: "h' \<noteq> h" using A' J by auto
    show "unalloc_ok ?d h'" using u ne L unfolding unalloc_ok_def fld
      by (auto simp add: tr in_flight_def begin_callback_def split: if_splits)
  next
    fix h' assume "next_handle ?d \<le> h'"
    then show "jobs ?d h' = None" using inv_fresh[OF I, of h']
      by (simp add: begin_callback_def split: if_splits)
  next
    show "inv_thread ?d" using inv_thr[OF I]
      by (auto simp add: inv_thread_def begin_callback_def)
  next
    show "sorted_wrt (<) (starts (trace ?d))" using inv_sorted_starts[OF I] by (simp add: tr)
  qed (use I in \<open>simp_all add: begin_callback_def inv_next inv_sorted\<close>)
  then show ?thesis using pl res runs by simp
qed

lemma evolves_begin_callback:
  assumes J: "jobs s h = Some j" and C: "\<not> was_cancelled j"
  shows "evolves s (begin_callback h j rv (s\<lparr>origin_loop := rest\<rparr>))"
proof (rule evolvesI[of _ _ "(if rv \<ge> OK then [EvUse h (the (results j)) (results_buf j)] else []) @
      [EvCallbackRun h (the (callback j)) rv]"])
  fix h' j' assume "jobs s h' = Some j'"
  then show "\<exists>j''. jobs (begin_callback h j rv (s\<lparr>origin_loop := rest\<rparr>)) h' = Some j'' \<and>
      (was_cancelled j' \<longrightarrow> was_cancelled j'' \<and>
         (\<forall>e\<in>set ((if rv \<ge> OK then [EvUse h (the (results j)) (results_buf j)] else []) @
      [EvCallbackRun h (the (callback j)) rv]). quiet h' e))"
    using J C by (auto simp add: begin_callback_def)
qed (simp_all add: begin_callback_def timeline_def)

lemma inv_advanced:
  assumes I: "consistent s" and P: "pending_jobs s = h # rest" and J: "jobs s h = Some j"
    and C: "\<not> was_cancelled j" and R: "callback_runs (trace s) h = 1"
  shows "consistent (advanced h s)"
proof (rule invI)
  have tl: "pending_jobs (advanced h s) = remove1 h (pending_jobs s)"
    using P by (simp add: advanced_def)
  have fl: "\<And>h'. in_flight (advanced h s) h' = in_flight s h'"
    by (simp add: advanced_def in_flight_def)
  fix h' j' assume A: "jobs (advanced h s) h' = Some j'"
  then have A': "jobs s h' = Some j'" by (simp add: advanced_def)
  then have ok: "job_ok s h' j'" using inv_job[OF I] by simp
  have ev: "job_st (pending_jobs (advanced h s)) (trace (advanced h s)) (in_flight s h') h' j' =
      job_st (pending_jobs (advanced h s)) (trace s) (in_flight s h') h' j'"
    using job_st_event_other[of h' "EvAdvance h"] by (simp add: advanced_def)
  show "job_ok (advanced h s) h' j'"
  proof (cases "h' = h")
    case True
    then have jj: "j' = j" using A' J by simp
    have "job_st (h # rest) (trace s) (in_flight s h) h j"
      using ok True jj P by (simp add: job_ok_def)
    from job_st_advance[OF this C R] inv_sorted[OF I] P
    have "job_st rest (trace s) (in_flight s h) h j" by simp
    then show ?thesis using ok ev unfolding True jj job_ok_def fl
      by (simp add: advanced_def P)
  next
    case False
    have "job_st (pending_jobs s) (trace s) (in_flight s h') h' j'"
      using ok by (simp add: job_ok_def)
    from job_st_remove[OF this, of h] False
    show ?thesis using ok ev unfolding job_ok_def fl tl
      by (simp add: advanced_def)
  qed
next
  fix h' assume "jobs (advanced h s) h' = None"
  then have "unalloc_ok s h'" using inv_none[OF I] by (simp add: advanced_def)
  then show "unalloc_ok (advanced h s) h'" using P
    by (auto simp add: unalloc_ok_def advanced_def in_flight_def)
next
  fix h' assume "next_handle (advanced h s) \<le> h'"
  then show "jobs (advanced h s) h' = None" using inv_fresh[OF I, of h'] by (simp add: advanced_def)
next
  show "sorted_wrt (<) (pending_jobs (advanced h s))"
    using inv_sorted[OF I] P by (simp add: advanced_def)
next
  show "inv_thread (advanced h s)" using inv_thr[OF I] P
    by (auto simp add: inv_thread_def advanced_def)
qed (use I in \<open>simp_all add: advanced_def inv_next inv_sorted_starts\<close>)

lemma evolves_advanced:
  assumes J: "jobs s h = Some j" and C: "\<not> was_cancelled j"
  shows "evolves s (advanced h s)"
proof (rule evolvesI[of _ _ "[EvAdvance h]"])
  fix h' j' assume "jobs s h' = Some j'"
  then show "\<exists>j''. jobs (advanced h s) h' = Some j'' \<and>
      (was_cancelled j' \<longrightarrow> was_cancelled j'' \<and> (\<forall>e\<in>set [EvAdvance h]. quiet h' e))"
    using J C by (auto simp add: advanced_def)
qed (simp_all add: advanced_def timeline_def)

lemma evolves_popped: "evolves s (s\<lparr>origin_loop := rest\<rparr>)"
  by (rule evolvesI[of _ _ "[]"]) (auto simp add: timeline_def)

lemma QueryComplete_live_cases:
  assumes I: "consistent s" and L: "origin_loop s = (h, rv) # rest" and J: "jobs s h = Some j"
    and C: "\<not> was_cancelled j"
    and Q: "Job_QueryComplete w h rv (s\<lparr>origin_loop := rest\<rparr>) = Inr s'"
  obtains s2 j2 where
    "call_apis w (on_complete w (the (callback j)) rv)
       (begin_callback h j rv (s\<lparr>origin_loop := rest\<rparr>)) = Inr s2"
    "consistent s2" "kept (begin_callback h j rv (s\<lparr>origin_loop := rest\<rparr>)) s2"
    "jobs s2 h = Some j2"
    "was_cancelled j2 \<Longrightarrow> s' = s2"
    "\<not> was_cancelled j2 \<Longrightarrow>
       s' = process_result (advanced h s2) \<and> pending_jobs s2 \<noteq> [] \<and>
       hd (pending_jobs s2) = h \<and> \<not> destroyed s2 \<and> callback_runs (trace s2) h = 1 \<and>
       consistent (advanced h s2) \<and>
       RemoveFrontOfJobsQueueAndStartNext h (s2\<lparr>trace := trace s2 @ [EvAdvance h]\<rparr>) = Inr s'"
proof -
  let ?s0 = "s\<lparr>origin_loop := rest\<rparr>"
  let ?d = "begin_callback h j rv ?s0"
  from inv_begin_callback[OF I L J C] have d: "consistent ?d" "pending_jobs s \<noteq> []"
    "hd (pending_jobs s) = h" "results j \<noteq> None" "callback_runs (trace ?d) h = 1" by simp_all
  have J0: "jobs ?s0 h = Some j" using J by simp
  note eq = QueryComplete_live[OF J0 C d(4), of w rv]
  from Q eq obtain s2 where s2: "call_apis w (on_complete w (the (callback j)) rv) ?d = Inr s2"
    by (auto split: sum.splits)
  from call_apis_props[OF d(1) s2] have p: "consistent s2" "kept ?d s2" by simp_all
  from Q eq s2 obtain j2 where j2: "jobs s2 h = Some j2" by (auto split: option.splits)
  have canc: "was_cancelled j2 \<Longrightarrow> s' = s2" using Q eq s2 j2 by simp
  have live: "s' = process_result (advanced h s2) \<and> pending_jobs s2 \<noteq> [] \<and>
       hd (pending_jobs s2) = h \<and> \<not> destroyed s2 \<and> callback_runs (trace s2) h = 1 \<and>
       consistent (advanced h s2) \<and>
       RemoveFrontOfJobsQueueAndStartNext h (s2\<lparr>trace := trace s2 @ [EvAdvance h]\<rparr>) = Inr s'"
    if nc: "\<not> was_cancelled j2"
  proof -
    have hp: "h \<in> set (pending_jobs ?d)" using d(2,3) by (auto simp add: begin_callback_def)
    have Jd: "jobs ?d h = Some j" using J by (simp add: begin_callback_def)
    have hp2: "h \<in> set (pending_jobs s2)" using p(2) Jd j2 hp nc unfolding kept_def by blast
    have "trace s2 = trace ?d @ new_events ?d s2" using p(2) by (simp add: kept_def evolves_def)
    then have "callback_runs (trace s2) h = 1 + callback_runs (new_events ?d s2) h"
      using d(5) by (metis callback_runs_append)
    then have ge: "1 \<le> callback_runs (trace s2) h" by simp
    have "job_st (pending_jobs s2) (trace s2) (in_flight s2 h) h j2"
      using inv_job[OF p(1) j2] by (simp add: job_ok_def)
    from job_st_after_callback[OF this nc hp2 ge]
    have f: "is_started j2" "hd (pending_jobs s2) = h" "callback_runs (trace s2) h = 1"
      "coordinator j2" by simp_all
    have ne: "pending_jobs s2 \<noteq> []" using hp2 by auto
    then have nd: "\<not> destroyed s2" using inv_thr[OF p(1)] by (auto simp: inv_thread_def)
    obtain rest2 where P2: "pending_jobs s2 = h # rest2" using ne f(2) by (cases "pending_jobs s2") auto
    have adv: "(s2\<lparr>trace := trace s2 @ [EvAdvance h], pending_jobs := rest2\<rparr>) = advanced h s2"
      using P2 by (simp add: advanced_def)
    have "RemoveFrontOfJobsQueueAndStartNext h (s2\<lparr>trace := trace s2 @ [EvAdvance h]\<rparr>) =
        ProcessPendingJobs (advanced h s2)"
      using P2 adv by (simp add: RemoveFrontOfJobsQueueAndStartNext_def)
    also have "\<dots> = Inr (process_result (advanced h s2))"
      using ProcessPendingJobs_eq[OF inv_advanced[OF p(1) P2 j2 nc f(3)]] .
    finally have rf: "RemoveFrontOfJobsQueueAndStartNext h (s2\<lparr>trace := trace s2 @ [EvAdvance h]\<rparr>) =
        Inr (process_result (advanced h s2))" .
    then have "s' = process_result (advanced h s2)" using Q eq s2 j2 nc f(4) nd by simp
    then show ?thesis using ne f nd rf inv_advanced[OF p(1) P2 j2 nc f(3)] by simp
  qed
  from that[OF s2 p j2 canc live] show ?thesis by blast
qed

lemma QueryComplete_props:
  assumes I: "consistent s" and L: "origin_loop s = (h, rv) # rest"
    and Q: "Job_QueryComplete w h rv (s\<lparr>origin_loop := rest\<rparr>) = Inr s'"
  shows "consistent s' \<and> evolves s s'"
proof -
  have "0 < in_flight s h" using L by (simp add: in_flight_def)
  from in_flight_allocated[OF I this] obtain j where J: "jobs s h = Some j" by blast
  show ?thesis
  proof (cases "was_cancelled j")
    case True
    have "s' = s\<lparr>origin_loop := rest\<rparr>"
      using Q QueryComplete_cancelled[of "s\<lparr>origin_loop := rest\<rparr>" h j w rv] J True by simp
    then show ?thesis using inv_popped_cancelled[OF I L J True] evolves_popped by simp
  next
    case False
    let ?d = "begin_callback h j rv (s\<lparr>origin_loop := rest\<rparr>)"
    from QueryComplete_live_cases[OF I L J False Q] obtain s2 j2 where
      s2: "consistent s2" "kept ?d s2" "jobs s2 h = Some j2" "was_cancelled j2 \<Longrightarrow> s' = s2"
      "\<not> was_cancelled j2 \<Longrightarrow>
       s' = process_result (advanced h s2) \<and> pending_jobs s2 \<noteq> [] \<and>
       hd (pending_jobs s2) = h \<and> \<not> destroyed s2 \<and> callback_runs (trace s2) h = 1 \<and>
       consistent (advanced h s2) \<and>
       RemoveFrontOfJobsQueueAndStartNext h (s2\<lparr>trace := trace s2 @ [EvAdvance h]\<rparr>) = Inr s'"
      by blast
    have E2: "evolves s s2"
      using evolves_trans[OF evolves_begin_callback[OF J False] kept_evolves[OF s2(2)]] .
    show ?thesis
    proof (cases "was_cancelled j2")
      case True
      then show ?thesis using s2 E2 by simp
    next
      case nc: False
      from s2(5)[OF nc] have f: "s' = process_result (advanced h s2)" "pending_jobs s2 \<noteq> []"
        "hd (pending_jobs s2) = h" "callback_runs (trace s2) h = 1" by simp_all
      obtain rest2 where P2: "pending_jobs s2 = h # rest2"
        using f(2,3) by (cases "pending_jobs s2") auto
      have Ia: "consistent (advanced h s2)" using inv_advanced[OF s2(1) P2 s2(3) nc f(4)] .
      have "evolves s2 (process_result (advanced h s2))"
        using evolves_trans[OF evolves_advanced[OF s2(3) nc]
            kept_evolves[OF kept_process_result[OF Ia]]] .
      then show ?thesis using f(1) inv_process_result[OF Ia] evolves_trans[OF E2] by simp
    qed
  qed
qed

lemma origin_step_props:
  assumes "consistent s" "origin_step w s = Inr s'"
  shows "consistent s' \<and> evolves s s'"
proof (cases "origin_loop s")
  case Nil
  then show ?thesis using assms evolves_refl by (simp add: origin_step_def)
next
  case (Cons p rest)
  obtain h rv where p: "p = (h, rv)" by (cases p)
  have "Job_QueryComplete w h rv (s\<lparr>origin_loop := rest\<rparr>) = Inr s'"
    using assms(2) Cons p by (simp add: origin_step_def)
  then show ?thesis using QueryComplete_props[OF assms(1)] Cons p by blast
qed

lemma step_props:
  assumes "consistent s" "step w x s = Inr s'"
  shows "consistent s' \<and> evolves s s'"
proof (cases x)
  case (Call a)
  then show ?thesis using assms call_api_props kept_evolves by auto
next
  case WorkerStep
  then show ?thesis using assms inv_worker_step kept_worker_step kept_evolves by auto
next
  case OriginStep
  then show ?thesis using assms origin_step_props by auto
qed

lemma exec_props:
  assumes "consistent s" "exec w xs s = Inr s'"
  shows "consistent s' \<and> evolves s s'"
  using assms
proof (induction xs arbitrary: s)
  case Nil
  then show ?case using evolves_refl by simp
next
  case (Cons x xs)
  from Cons.prems(2) obtain s1 where s1: "step w x s = Inr s1" "exec w xs s1 = Inr s'"
    by (auto split: sum.splits)
  from step_props[OF Cons.prems(1) s1(1)] have 1: "consistent s1" "evolves s s1" by simp_all
  from Cons.IH[OF 1(1) s1(2)] show ?case using evolves_trans[OF 1(2)] by blast
qed

lemma inv_reachable: "exec w xs (init_state mem) = Inr s \<Longrightarrow> consistent s"
  using exec_props[OF inv_init] by blast

section \<open>The queries on the worker's timeline\<close>

lemma queries_append [simp]: "queries (xs @ ys) = queries xs @ queries ys"
  by (simp add: queries_def)

lemma queries_simps [simp]:
  "queries [] = []" "queries (DoQuery h # ts) = h # queries ts"
  "queries (SetPacScriptTask pac_url bytes # ts) = queries ts"
  by (simp_all add: queries_def)



lemma starts_map_cancel [simp]: "starts (map EvJobCancel hs) = []"
  by (induction hs) (simp_all add: starts_def)

lemma ran_map_cancel [simp]: "ran (map EvJobCancel hs) = []"
  by (induction hs) (simp_all add: ran_def)

lemma starts_map_run [simp]: "starts (map EvRun ts) = []"
  by (induction ts) (simp_all add: starts_def)

lemma ran_map_run [simp]: "ran (map EvRun ts) = ts"
  by (induction ts) (simp_all add: ran_def)



















lemmas run_defs = init_state_def demo_world_def destroying_world_def demo_memory_def
  GetProxyForURL_def Job_ctor_def new_Job_def ProcessPendingJobs_def EnsureThreadStarted_def
  Job_Start_def Job_Cancel_def CancelRequest_def RemoveFrontOfJobsQueueAndStartNext_def
  SetPacScriptHelper_def SetPacScriptByUrlInternal_def SetPacScriptByDataInternal_def
  SetPacScriptTask_Run_def Job_DoQuery_def worker_step_def Thread_destroy_def Destructor_def destroy_members_def
  Callback_Run_def Results_Use_def Job_QueryComplete_def origin_step_def was_cancelled_def
  OK_def ERR_IO_PENDING_def Let_def starts_def callback_runs_def in_flight_def
  timeline_def ran_def new_events_def

section \<open>The claims of the specification\<close>

lemma quiet_not_run: "quiet h e \<Longrightarrow> \<not> is_run_of h e"
  by (cases e) auto

lemma api_event_not_run: "api_event e \<Longrightarrow> \<not> is_run_of h e"
  by (cases e) auto

lemma quiet_runs: "\<forall>e\<in>set ev. quiet h e \<Longrightarrow> callback_runs ev h = 0"
  by (simp add: callback_runs_def filter_empty_conv quiet_not_run)

lemma api_runs: "\<forall>e\<in>set ev. api_event e \<Longrightarrow> callback_runs ev h = 0"
  by (simp add: callback_runs_def filter_empty_conv api_event_not_run)

lemma job_st_front:
  "job_st pend tr fl h j \<Longrightarrow> h \<in> set pend \<Longrightarrow> is_started j \<Longrightarrow> hd pend = h"
  unfolding job_st_def by (auto split: if_splits)

lemma job_st_in_flight:
  "job_st pend tr fl h j \<Longrightarrow> \<not> was_cancelled j \<Longrightarrow> 0 < fl \<Longrightarrow>
   is_started j \<and> pend \<noteq> [] \<and> hd pend = h \<and> fl = 1"
  unfolding job_st_def by (auto split: if_splits)

lemma job_st_cancelled_in_flight:
  "job_st pend tr fl h j \<Longrightarrow> was_cancelled j \<Longrightarrow> 0 < fl \<Longrightarrow>
   is_started j \<and> h \<notin> set pend \<and> fl = 1 \<and> callback_runs tr h = 0"
  unfolding job_st_def by (auto split: if_splits)

lemma job_st_left_queue:
  "job_st pend tr fl h j \<Longrightarrow> h \<notin> set pend \<Longrightarrow> was_cancelled j \<or> callback_runs tr h = 1"
  unfolding job_st_def by (auto split: if_splits)

lemma job_st_cancelled_refs:
  "job_st pend tr fl h j \<Longrightarrow>
   was_cancelled j = (EvJobCancel h \<in> set tr) \<and>
   (was_cancelled j \<longrightarrow> \<not> coordinator j \<and> results j = None \<and> h \<notin> set pend) \<and>
   (\<not> was_cancelled j \<longrightarrow> coordinator j \<and> results j \<noteq> None)"
  unfolding job_st_def by (auto split: if_splits)

lemma job_st_runs_le: "job_st pend tr fl h j \<Longrightarrow> fl + callback_runs tr h \<le> 1"
  unfolding job_st_def by (auto split: if_splits)

text \<open>
  C1, as the code has it. In every state that a sequence of calls, worker turns and
  origin turns reaches: the pending queue is in submission order (handles are handed out
  in increasing order); a started job of the queue is its front; a job that is not
  cancelled and has a task in flight (its query on the worker's loop, or its completion
  on the origin loop) is started, is the front of the queue and has exactly one such
  task, so two such jobs are the same; a cancelled job with a task in flight was
  started, has left the queue, has one such task, and its callback has not run; jobs
  have started in strictly increasing submission order, each at most once; and when a
  job has started, every job submitted before it has left the queue, and is cancelled or
  has had its callback run.
\<close>

theorem fifo_single_flight:
  assumes "exec w xs (init_state mem) = Inr s"
  shows "sorted_wrt (<) (pending_jobs s) \<and>
         sorted_wrt (<) (starts (trace s)) \<and>
         (\<forall>h j. jobs s h = Some j \<longrightarrow>
            (is_started j \<longleftrightarrow> h \<in> set (starts (trace s))) \<and>
            (h \<in> set (pending_jobs s) \<longrightarrow> is_started j \<longrightarrow> hd (pending_jobs s) = h) \<and>
            (\<not> was_cancelled j \<longrightarrow> 0 < in_flight s h \<longrightarrow>
               is_started j \<and> pending_jobs s \<noteq> [] \<and> hd (pending_jobs s) = h \<and>
               in_flight s h = 1) \<and>
            (was_cancelled j \<longrightarrow> 0 < in_flight s h \<longrightarrow>
               is_started j \<and> h \<notin> set (pending_jobs s) \<and> in_flight s h = 1 \<and>
               callback_runs (trace s) h = 0)) \<and>
         (\<forall>h j h' j'. jobs s h = Some j \<longrightarrow> jobs s h' = Some j' \<longrightarrow>
            \<not> was_cancelled j \<longrightarrow> \<not> was_cancelled j' \<longrightarrow>
            0 < in_flight s h \<longrightarrow> 0 < in_flight s h' \<longrightarrow> h = h') \<and>
         (\<forall>h j h' j'. jobs s h = Some j \<longrightarrow> is_started j \<longrightarrow> jobs s h' = Some j' \<longrightarrow>
            h' < h \<longrightarrow>
            h' \<notin> set (pending_jobs s) \<and>
            (was_cancelled j' \<or> callback_runs (trace s) h' = 1))"
proof -
  have I: "consistent s" using inv_reachable[OF assms] .
  have st: "\<And>h j. jobs s h = Some j \<Longrightarrow>
      job_st (pending_jobs s) (trace s) (in_flight s h) h j"
    using inv_job[OF I] by (simp add: job_ok_def)
  have a: "\<And>h j. jobs s h = Some j \<Longrightarrow>
            (is_started j \<longleftrightarrow> h \<in> set (starts (trace s))) \<and>
            (h \<in> set (pending_jobs s) \<longrightarrow> is_started j \<longrightarrow> hd (pending_jobs s) = h) \<and>
            (\<not> was_cancelled j \<longrightarrow> 0 < in_flight s h \<longrightarrow>
               is_started j \<and> pending_jobs s \<noteq> [] \<and> hd (pending_jobs s) = h \<and>
               in_flight s h = 1) \<and>
            (was_cancelled j \<longrightarrow> 0 < in_flight s h \<longrightarrow>
               is_started j \<and> h \<notin> set (pending_jobs s) \<and> in_flight s h = 1 \<and>
               callback_runs (trace s) h = 0)"
  proof -
    fix h j assume "jobs s h = Some j"
    note s = st[OF this]
    show "(is_started j \<longleftrightarrow> h \<in> set (starts (trace s))) \<and>
            (h \<in> set (pending_jobs s) \<longrightarrow> is_started j \<longrightarrow> hd (pending_jobs s) = h) \<and>
            (\<not> was_cancelled j \<longrightarrow> 0 < in_flight s h \<longrightarrow>
               is_started j \<and> pending_jobs s \<noteq> [] \<and> hd (pending_jobs s) = h \<and>
               in_flight s h = 1) \<and>
            (was_cancelled j \<longrightarrow> 0 < in_flight s h \<longrightarrow>
               is_started j \<and> h \<notin> set (pending_jobs s) \<and> in_flight s h = 1 \<and>
               callback_runs (trace s) h = 0)"
      using job_st_started_iff[OF s] job_st_front[OF s] job_st_in_flight[OF s]
        job_st_cancelled_in_flight[OF s]
      by blast
  qed
  have b: "\<And>h j h' j'. jobs s h = Some j \<Longrightarrow> jobs s h' = Some j' \<Longrightarrow>
            \<not> was_cancelled j \<Longrightarrow> \<not> was_cancelled j' \<Longrightarrow>
            0 < in_flight s h \<Longrightarrow> 0 < in_flight s h' \<Longrightarrow> h = h'"
    using a by metis
  have c: "\<And>h j h' j'. jobs s h = Some j \<Longrightarrow> is_started j \<Longrightarrow> jobs s h' = Some j' \<Longrightarrow>
            h' < h \<Longrightarrow>
            h' \<notin> set (pending_jobs s) \<and>
            (was_cancelled j' \<or> callback_runs (trace s) h' = 1)"
  proof -
    fix h j h' j'
    assume h: "jobs s h = Some j" "is_started j" "jobs s h' = Some j'" "h' < h"
    have "h' \<notin> set (pending_jobs s)"
      using job_st_started_le[OF st[OF h(1)] h(2) inv_sorted[OF I], of h'] h(4) by auto
    then show "h' \<notin> set (pending_jobs s) \<and>
            (was_cancelled j' \<or> callback_runs (trace s) h' = 1)"
      using job_st_left_queue[OF st[OF h(3)]] by simp
  qed
  show ?thesis using inv_sorted[OF I] inv_sorted_starts[OF I] a b c by blast
qed

text \<open>
  C2. Once \<^verbatim>\<open>CancelRequest\<close> has returned for a handle, whatever happens afterwards
  (whatever the engine returns for the query in flight, and whatever else is called),
  the job stays cancelled with its three references cleared, and the events that follow
  hold no start of this job, no write of its output slot, no run of its callback and
  no advance of the queue on its behalf. The same holds from any reachable state on
  for a job that is cancelled there, whoever cancelled it.
\<close>

theorem cancel_silences_job:
  assumes "exec w xs (init_state mem) = Inr s"
  shows "(\<forall>h s1 ys s2. CancelRequest h s = Inr s1 \<longrightarrow> exec w ys s1 = Inr s2 \<longrightarrow>
            (\<exists>j. jobs s2 h = Some j \<and> was_cancelled j \<and> callback j = None \<and>
                 results j = None \<and> \<not> coordinator j) \<and>
            trace s2 = trace s1 @ new_events s1 s2 \<and>
            (\<forall>e \<in> set (new_events s1 s2). quiet h e) \<and>
            callback_runs (trace s2) h = callback_runs (trace s1) h) \<and>
         (\<forall>h j ys s2. jobs s h = Some j \<longrightarrow> was_cancelled j \<longrightarrow> exec w ys s = Inr s2 \<longrightarrow>
            (\<exists>j2. jobs s2 h = Some j2 \<and> was_cancelled j2 \<and> callback j2 = None \<and>
                 results j2 = None \<and> \<not> coordinator j2) \<and>
            trace s2 = trace s @ new_events s s2 \<and>
            (\<forall>e \<in> set (new_events s s2). quiet h e) \<and>
            callback_runs (trace s2) h = callback_runs (trace s) h)"
proof -
  have I: "consistent s" using inv_reachable[OF assms(1)] .
  have B: "(\<exists>j2. jobs s2 h = Some j2 \<and> was_cancelled j2 \<and> callback j2 = None \<and>
                 results j2 = None \<and> \<not> coordinator j2) \<and>
            trace s2 = trace s1 @ new_events s1 s2 \<and>
            (\<forall>e \<in> set (new_events s1 s2). quiet h e) \<and>
            callback_runs (trace s2) h = callback_runs (trace s1) h"
    if I1: "consistent s1" and j1: "jobs s1 h = Some j1" "was_cancelled j1"
      and X: "exec w ys s1 = Inr s2" for s1 h j1 ys s2
  proof -
    from exec_props[OF I1 X] have I2: "consistent s2" and E: "evolves s1 s2" by simp_all
    from E j1 obtain j2 where j2: "jobs s2 h = Some j2" "was_cancelled j2"
      "\<forall>e \<in> set (new_events s1 s2). quiet h e" unfolding evolves_def by blast
    have T: "trace s2 = trace s1 @ new_events s1 s2" using E by (simp add: evolves_def)
    have "job_st (pending_jobs s2) (trace s2) (in_flight s2 h) h j2"
      using inv_job[OF I2 j2(1)] by (simp add: job_ok_def)
    from job_st_cancelled_refs[OF this] j2(2)
    have refs: "\<not> coordinator j2" "results j2 = None" "callback j2 = None"
      by (simp_all add: was_cancelled_def)
    have "callback_runs (trace s2) h =
        callback_runs (trace s1) h + callback_runs (new_events s1 s2) h"
      using T by (metis callback_runs_append)
    then have "callback_runs (trace s2) h = callback_runs (trace s1) h"
      using quiet_runs[OF j2(3)] by simp
    then show ?thesis using j2 refs T by blast
  qed
  have A: "(\<exists>j. jobs s2 h = Some j \<and> was_cancelled j \<and> callback j = None \<and>
                 results j = None \<and> \<not> coordinator j) \<and>
            trace s2 = trace s1 @ new_events s1 s2 \<and>
            (\<forall>e \<in> set (new_events s1 s2). quiet h e) \<and>
            callback_runs (trace s2) h = callback_runs (trace s1) h"
    if C: "CancelRequest h s = Inr s1" and X: "exec w ys s1 = Inr s2" for h s1 ys s2
  proof -
    have I1: "consistent s1" using inv_CancelRequest[OF I C] .
    from CancelRequest_Inr[OF C] obtain j where J: "jobs s h = Some j"
      and P: "h \<in> set (pending_jobs s)" by blast
    have c0: "jobs (cancel_remove h j s) h =
        Some (j\<lparr>coordinator := False, callback := None, results := None\<rparr>)"
      by (simp add: cancel_remove_def)
    have "\<exists>j1. jobs s1 h = Some j1 \<and> was_cancelled j1"
    proof (cases "is_started j")
      case True
      then have "s1 = process_result (cancel_remove h j s)"
        using C CancelRequest_eq[OF I J P] by simp
      then show ?thesis
        using kept_evolves[OF kept_process_result[OF inv_cancel_remove[OF I J P]]] c0
        unfolding evolves_def by (fastforce simp: was_cancelled_def)
    next
      case False
      then have "s1 = cancel_remove h j s"
        using C CancelRequest_eq[OF I J P] by simp
      then show ?thesis using c0 by (simp add: was_cancelled_def)
    qed
    then obtain j1 where j1: "jobs s1 h = Some j1" "was_cancelled j1" by blast
    from B[OF I1 j1 X] show ?thesis .
  qed
  show ?thesis using A B[OF I] by blast
qed

lemma worker_step_total:
  assumes "consistent s" "\<forall>log u. fst (engine w log u) \<noteq> ERR_IO_PENDING"
  shows "\<exists>s'. worker_step w s = Inr s'"
proof (cases "worker_loop s")
  case Nil
  then show ?thesis by (simp add: worker_step_def)
next
  case (Cons t ts)
  show ?thesis
  proof (cases t)
    case (DoQuery h)
    then have "0 < in_flight s h" using Cons by (simp add: in_flight_def)
    from in_flight_allocated[OF assms(1) this] obtain j where "jobs s h = Some j" by blast
    then show ?thesis using Cons DoQuery assms(2)
      by (simp add: worker_step_def Job_DoQuery_def Let_def split: prod.splits)
         (metis fst_conv)
  next
    case (SetPacScriptTask pac_url bytes)
    then show ?thesis using Cons by (simp add: worker_step_def)
  qed
qed

lemma drain_total:
  assumes "consistent s" "\<forall>log u. fst (engine w log u) \<noteq> ERR_IO_PENDING"
  shows "\<exists>s'. drain w n s = Inr s'"
  using assms(1)
proof (induction n arbitrary: s)
  case 0
  then show ?case by simp
next
  case (Suc n)
  from worker_step_total[OF Suc.prems assms(2)] obtain s1 where
    s1: "worker_step w s = Inr s1" by blast
  from Suc.IH[OF inv_worker_step[OF Suc.prems s1]] show ?case using s1 by simp
qed

lemma Destructor_total:
  assumes "consistent s" "\<forall>log u. fst (engine w log u) \<noteq> ERR_IO_PENDING"
  shows "\<exists>s'. Destructor w s = Inr s'"
proof -
  from cancel_all_props[OF assms(1) refl] obtain s1 where
    s1: "cancel_all (pending_jobs s) s = Inr s1" "consistent (s1\<lparr>pending_jobs := []\<rparr>)"
    by blast
  from drain_total[OF s1(2) assms(2)] obtain s2 where
    "drain w (length (worker_loop s1)) (s1\<lparr>pending_jobs := []\<rparr>) = Inr s2" by blast
  then show ?thesis using s1(1)
    by (simp add: Destructor_def destroy_members_def Thread_destroy_def)
qed


text \<open>
  C10. A job is constructed only with a callback that is not null (the constructor
  refuses a null one, as \<^verbatim>\<open>GetProxyForURL\<close> does before it), so a new job is not
  cancelled; and in every reachable state a job is cancelled, that is its callback
  reference is null, exactly when \<^verbatim>\<open>Cancel\<close> has been called on it.
\<close>

theorem cancelled_iff_cancel_called:
  assumes "exec w xs (init_state mem) = Inr s" and "jobs s h = Some j"
  shows "(was_cancelled j \<longleftrightarrow> callback j = None) \<and>
         (was_cancelled j \<longleftrightarrow> EvJobCancel h \<in> set (trace s)) \<and>
         Job_ctor u r None = Inl DCheckCallback \<and>
         GetProxyForURL u r None s = Inl DCheckCallback \<and>
         (\<forall>c job. Job_ctor u r (Some c) = Inr job \<longrightarrow> \<not> was_cancelled job) \<and>
         (\<forall>c rv h' s'. GetProxyForURL u r (Some c) s = Inr (rv, h', s') \<longrightarrow>
            (\<exists>j'. jobs s' h' = Some j' \<and> \<not> was_cancelled j' \<and> callback j' = Some c \<and>
                  EvJobCancel h' \<notin> set (trace s')))"
proof -
  have I: "consistent s" using inv_reachable[OF assms(1)] .
  have "job_st (pending_jobs s) (trace s) (in_flight s h) h j"
    using inv_job[OF I assms(2)] by (simp add: job_ok_def)
  from job_st_cancelled_refs[OF this]
  have a: "was_cancelled j \<longleftrightarrow> EvJobCancel h \<in> set (trace s)" by simp
  have b: "\<And>c rv h' s'. GetProxyForURL u r (Some c) s = Inr (rv, h', s') \<Longrightarrow>
            (\<exists>j'. jobs s' h' = Some j' \<and> \<not> was_cancelled j' \<and> callback j' = Some c \<and>
                  EvJobCancel h' \<notin> set (trace s'))"
  proof -
    fix c rv h' s' assume G: "GetProxyForURL u r (Some c) s = Inr (rv, h', s')"
    have h': "h' = next_handle s"
      using G by (auto simp add: GetProxyForURL_def Job_ctor_def Let_def split: sum.splits)
    show "\<exists>j'. jobs s' h' = Some j' \<and> \<not> was_cancelled j' \<and> callback j' = Some c \<and>
                  EvJobCancel h' \<notin> set (trace s')"
    proof (cases "pending_jobs s")
      case Nil
      then show ?thesis using G unfolding h'
        by (auto simp add: GetProxyForURL_def Job_ctor_def Let_def ProcessPendingJobs_def
              Job_Start_def EnsureThreadStarted_def new_Job_def was_cancelled_def
              split: sum.splits option.splits if_splits)
           (use inv_none[OF I inv_fresh[OF I, of "next_handle s"]] in \<open>simp_all add: unalloc_ok_def\<close>)?
    next
      case (Cons p ps)
      then have "p \<in> set (pending_jobs s)" by simp
      from inv_pending_job[OF I this] obtain jp where jp: "jobs s p = Some jp" by blast
      then have ne: "p \<noteq> next_handle s" using inv_fresh[OF I, of p] by auto
      show ?thesis using G Cons jp ne unfolding h'
        by (auto simp add: GetProxyForURL_def Job_ctor_def Let_def ProcessPendingJobs_def
              Job_Start_def EnsureThreadStarted_def new_Job_def was_cancelled_def
              split: sum.splits option.splits if_splits)
           (use inv_none[OF I inv_fresh[OF I, of "next_handle s"]] in \<open>simp_all add: unalloc_ok_def\<close>)?
    qed
  qed
  have c: "\<And>c job. Job_ctor u r (Some c) = Inr job \<Longrightarrow> \<not> was_cancelled job"
    by (auto simp add: Job_ctor_def new_Job_def was_cancelled_def)
  show ?thesis using a b c
    by (simp add: was_cancelled_def Job_ctor_def GetProxyForURL_def)
qed

lemma process_result_start:
  "pending_jobs s = h # rest \<Longrightarrow> jobs s h = Some j \<Longrightarrow> \<not> is_started j \<Longrightarrow>
   process_result s = start_job h j s"
  by (simp add: process_result_def)



lemma advance_runs:
  "\<forall>e\<in>set ev. api_event e \<or> e = EvAdvance h \<Longrightarrow> callback_runs ev h' = 0"
  by (auto simp add: callback_runs_def filter_empty_conv api_event_not_run)

lemma begin_callback_use:
  assumes "results j = Some r"
  shows "(if OK \<le> rv then Results_Use h j s0 else Inr s0) =
           Inr (s0\<lparr>memory := (if OK \<le> rv then (memory s0)(r := results_buf j) else memory s0),
                   trace := trace s0 @ (if OK \<le> rv then [EvUse h r (results_buf j)] else [])\<rparr>)"
  using assms by (simp add: Results_Use_def)

lemma begin_callback_run:
  assumes "results j = Some r" "callback j = Some c"
  shows "Callback_Run w h c rv
           (s0\<lparr>memory := (if OK \<le> rv then (memory s0)(r := results_buf j) else memory s0),
               trace := trace s0 @ (if OK \<le> rv then [EvUse h r (results_buf j)] else [])\<rparr>) =
         call_apis w (on_complete w c rv) (begin_callback h j rv s0)"
  using assms by (simp add: Callback_Run_def begin_callback_def)

lemma origin_step_live:
  assumes I: "consistent s" and L: "origin_loop s = (h, rv) # rest" and J: "jobs s h = Some j"
    and C: "\<not> was_cancelled j" and O: "origin_step w s = Inr s'"
  obtains c r s1 s2 j2 ev where
    "callback j = Some c" "results j = Some r"
    "(if OK \<le> rv then Results_Use h j (s\<lparr>origin_loop := rest\<rparr>)
      else Inr (s\<lparr>origin_loop := rest\<rparr>)) = Inr s1"
    "Callback_Run w h c rv s1 = Inr s2" "jobs s2 h = Some j2"
    "was_cancelled j2 \<Longrightarrow> s' = s2"
    "\<not> was_cancelled j2 \<Longrightarrow>
       \<not> destroyed s2 \<and> pending_jobs s2 \<noteq> [] \<and> hd (pending_jobs s2) = h \<and>
       RemoveFrontOfJobsQueueAndStartNext h (s2\<lparr>trace := trace s2 @ [EvAdvance h]\<rparr>) = Inr s' \<and>
       pending_jobs s' = tl (pending_jobs s2) \<and> EvAdvance h \<in> set (trace s')"
    "destroyed s2 \<Longrightarrow> was_cancelled j2"
    "trace s' = trace s @ (if OK \<le> rv then [EvUse h r (results_buf j)] else []) @
        [EvCallbackRun h c rv] @ ev"
    "\<forall>e\<in>set ev. api_event e \<or> e = EvAdvance h"
    "callback_runs (trace s) h = 0" "callback_runs (trace s') h = 1"
    "memory s' = (if OK \<le> rv then (memory s)(r := results_buf j) else memory s)"
proof -
  let ?s0 = "s\<lparr>origin_loop := rest\<rparr>"
  let ?d = "begin_callback h j rv ?s0"
  have Q: "Job_QueryComplete w h rv ?s0 = Inr s'" using O L by (simp add: origin_step_def)
  from inv_begin_callback[OF I L J C] have d: "consistent ?d" "results j \<noteq> None"
    "callback_runs (trace ?d) h = 1" by simp_all
  obtain c where c: "callback j = Some c" using C by (auto simp: was_cancelled_def)
  obtain r where r: "results j = Some r" using d(2) by auto
  let ?U = "if OK \<le> rv then [EvUse h r (results_buf j)] else []"
  have td: "trace ?d = trace s @ ?U @ [EvCallbackRun h c rv]"
    using c r by (simp add: begin_callback_def)
  have md: "memory ?d = (if OK \<le> rv then (memory s)(r := results_buf j) else memory s)"
    using r by (simp add: begin_callback_def)
  have "0 < in_flight s h" using L by (simp add: in_flight_def)
  then have "job_st (pending_jobs s) (trace s) (Suc (in_flight s h - 1)) h j"
    using inv_job[OF I J] by (simp add: job_ok_def)
  from job_st_pop_live[OF this C] have r0: "callback_runs (trace s) h = 0" by simp
  from QueryComplete_live_cases[OF I L J C Q] obtain s2 j2 where
    s2: "call_apis w (on_complete w (the (callback j)) rv) ?d = Inr s2"
      "consistent s2" "kept ?d s2" "jobs s2 h = Some j2" "was_cancelled j2 \<Longrightarrow> s' = s2"
      "\<not> was_cancelled j2 \<Longrightarrow>
       s' = process_result (advanced h s2) \<and> pending_jobs s2 \<noteq> [] \<and>
       hd (pending_jobs s2) = h \<and> \<not> destroyed s2 \<and> callback_runs (trace s2) h = 1 \<and>
       consistent (advanced h s2) \<and>
       RemoveFrontOfJobsQueueAndStartNext h (s2\<lparr>trace := trace s2 @ [EvAdvance h]\<rparr>) = Inr s'"
    by blast
  note bc = begin_callback_use[OF r, of rv h ?s0] begin_callback_run[OF r c, of w h rv ?s0]
  have cr: "Callback_Run w h c rv
           (?s0\<lparr>memory := (if OK \<le> rv then (memory ?s0)(r := results_buf j) else memory ?s0),
               trace := trace ?s0 @ (if OK \<le> rv then [EvUse h r (results_buf j)] else [])\<rparr>) =
         Inr s2"
    using bc(2) s2(1) c by simp
  have t2: "trace s2 = trace ?d @ new_events ?d s2" and a2: "\<forall>e\<in>set (new_events ?d s2). api_event e"
    and m2: "memory s2 = memory ?d"
    using s2(3) by (simp_all add: kept_def evolves_def)
  have nd: "destroyed s2 \<Longrightarrow> was_cancelled j2"
    using s2(6) by blast
  show ?thesis
  proof (cases "was_cancelled j2")
    case True
    then have e: "s' = s2" using s2(5) by simp
    have 1: "trace s' = trace s @ ?U @ [EvCallbackRun h c rv] @ new_events ?d s2"
      using t2 td e by simp
    have 2: "\<forall>e\<in>set (new_events ?d s2). api_event e \<or> e = EvAdvance h" using a2 by blast
    have "callback_runs (trace s') h = callback_runs (trace ?d) h + callback_runs (new_events ?d s2) h"
      using t2 e by (metis callback_runs_append)
    then have 3: "callback_runs (trace s') h = 1" using d(3) api_runs[OF a2] by simp
    show ?thesis
      using that[OF c r bc(1) cr s2(4) s2(5) _ nd 1 2 r0 3] True m2 md e by simp
  next
    case False
    from s2(6)[OF False] have f: "s' = process_result (advanced h s2)" "pending_jobs s2 \<noteq> []"
      "hd (pending_jobs s2) = h" "\<not> destroyed s2" "consistent (advanced h s2)"
      "RemoveFrontOfJobsQueueAndStartNext h (s2\<lparr>trace := trace s2 @ [EvAdvance h]\<rparr>) = Inr s'"
      by simp_all
    let ?a = "advanced h s2"
    have K: "kept ?a s'" unfolding f(1) using kept_process_result[OF f(5)] .
    have t3: "trace s' = trace ?a @ new_events ?a s'" and a3: "\<forall>e\<in>set (new_events ?a s'). api_event e"
      and m3: "memory s' = memory ?a"
      using K by (simp_all add: kept_def evolves_def)
    have ta: "trace ?a = trace s2 @ [EvAdvance h]" by (simp add: advanced_def)
    let ?ev = "new_events ?d s2 @ [EvAdvance h] @ new_events ?a s'"
    have 1: "trace s' = trace s @ ?U @ [EvCallbackRun h c rv] @ ?ev"
      using t3 ta t2 td by simp
    have 2: "\<forall>e\<in>set ?ev. api_event e \<or> e = EvAdvance h" using a2 a3 by auto
    have "callback_runs (trace s') h = callback_runs (trace ?d) h + callback_runs ?ev h"
      using 1 td by (metis append.assoc callback_runs_append)
    then have 3: "callback_runs (trace s') h = 1" using d(3) advance_runs[OF 2] by simp
    have 4: "pending_jobs s' = tl (pending_jobs s2)"
      unfolding f(1) by (simp add: process_result_frame advanced_def)
    have 5: "EvAdvance h \<in> set (trace s')" using 1 by simp
    have 6: "memory s' = memory ?d" using m3 m2 by (simp add: advanced_def)
    show ?thesis
      using that[OF c r bc(1) cr s2(4) s2(5) _ nd 1 2 r0 3] False f 4 5 6 md by simp
  qed
qed

lemma QueryComplete_after_callback:
  assumes I: "consistent s" and L: "origin_loop s = (h, rv) # rest" and J: "jobs s h = Some j"
    and C: "\<not> was_cancelled j"
    and S2: "call_apis w (on_complete w (the (callback j)) rv)
               (begin_callback h j rv (s\<lparr>origin_loop := rest\<rparr>)) = Inr s2"
  obtains j2 where "jobs s2 h = Some j2" "consistent s2"
    "was_cancelled j2 \<Longrightarrow> Job_QueryComplete w h rv (s\<lparr>origin_loop := rest\<rparr>) = Inr s2"
    "\<not> was_cancelled j2 \<Longrightarrow>
       coordinator j2 \<and> \<not> destroyed s2 \<and> pending_jobs s2 \<noteq> [] \<and> hd (pending_jobs s2) = h \<and>
       consistent (advanced h s2) \<and>
       Job_QueryComplete w h rv (s\<lparr>origin_loop := rest\<rparr>) =
         Inr (process_result (advanced h s2)) \<and>
       RemoveFrontOfJobsQueueAndStartNext h (s2\<lparr>trace := trace s2 @ [EvAdvance h]\<rparr>) =
         Inr (process_result (advanced h s2))"
proof -
  let ?s0 = "s\<lparr>origin_loop := rest\<rparr>"
  let ?d = "begin_callback h j rv ?s0"
  from inv_begin_callback[OF I L J C] have d: "consistent ?d" "pending_jobs s \<noteq> []"
    "hd (pending_jobs s) = h" "results j \<noteq> None" "callback_runs (trace ?d) h = 1" by simp_all
  have J0: "jobs ?s0 h = Some j" using J by simp
  note eq = QueryComplete_live[OF J0 C d(4), of w rv]
  from call_apis_props[OF d(1) S2] have p: "consistent s2" "kept ?d s2" by simp_all
  have Jd: "jobs ?d h = Some j" using J by (simp add: begin_callback_def)
  from kept_evolves[OF p(2)] Jd obtain j2 where j2: "jobs s2 h = Some j2"
    unfolding evolves_def by blast
  have canc: "was_cancelled j2 \<Longrightarrow> Job_QueryComplete w h rv ?s0 = Inr s2"
    using eq S2 j2 by simp
  have live: "coordinator j2 \<and> \<not> destroyed s2 \<and> pending_jobs s2 \<noteq> [] \<and>
       hd (pending_jobs s2) = h \<and> consistent (advanced h s2) \<and>
       Job_QueryComplete w h rv ?s0 = Inr (process_result (advanced h s2)) \<and>
       RemoveFrontOfJobsQueueAndStartNext h (s2\<lparr>trace := trace s2 @ [EvAdvance h]\<rparr>) =
         Inr (process_result (advanced h s2))"
    if nc: "\<not> was_cancelled j2"
  proof -
    have hp: "h \<in> set (pending_jobs ?d)" using d(2,3) by (auto simp add: begin_callback_def)
    have hp2: "h \<in> set (pending_jobs s2)" using p(2) Jd j2 hp nc unfolding kept_def by blast
    have "trace s2 = trace ?d @ new_events ?d s2" using p(2) by (simp add: kept_def evolves_def)
    then have "callback_runs (trace s2) h = 1 + callback_runs (new_events ?d s2) h"
      using d(5) by (metis callback_runs_append)
    then have ge: "1 \<le> callback_runs (trace s2) h" by simp
    have "job_st (pending_jobs s2) (trace s2) (in_flight s2 h) h j2"
      using inv_job[OF p(1) j2] by (simp add: job_ok_def)
    from job_st_after_callback[OF this nc hp2 ge]
    have f: "is_started j2" "hd (pending_jobs s2) = h" "callback_runs (trace s2) h = 1"
      "coordinator j2" by simp_all
    have ne: "pending_jobs s2 \<noteq> []" using hp2 by auto
    then have nd: "\<not> destroyed s2" using inv_thr[OF p(1)] by (auto simp: inv_thread_def)
    obtain rest2 where P2: "pending_jobs s2 = h # rest2"
      using ne f(2) by (cases "pending_jobs s2") auto
    have adv: "(s2\<lparr>trace := trace s2 @ [EvAdvance h], pending_jobs := rest2\<rparr>) = advanced h s2"
      using P2 by (simp add: advanced_def)
    have Ia: "consistent (advanced h s2)" using inv_advanced[OF p(1) P2 j2 nc f(3)] .
    have "RemoveFrontOfJobsQueueAndStartNext h (s2\<lparr>trace := trace s2 @ [EvAdvance h]\<rparr>) =
        ProcessPendingJobs (advanced h s2)"
      using P2 adv by (simp add: RemoveFrontOfJobsQueueAndStartNext_def)
    also have "\<dots> = Inr (process_result (advanced h s2))"
      using ProcessPendingJobs_eq[OF Ia] .
    finally have rf: "RemoveFrontOfJobsQueueAndStartNext h (s2\<lparr>trace := trace s2 @ [EvAdvance h]\<rparr>) =
        Inr (process_result (advanced h s2))" .
    then have "Job_QueryComplete w h rv ?s0 = Inr (process_result (advanced h s2))"
      using eq S2 j2 nc f(4) nd by simp
    then show ?thesis using ne f nd rf Ia by simp
  qed
  from that[OF j2 p(1) canc live] show ?thesis by blast
qed

lemma advance_starts_next:
  assumes I: "consistent s2" and H: "hd (pending_jobs s2) = h"
    and T: "tl (pending_jobs s2) = n # ns" and Ia: "consistent (advanced h s2)"
  obtains jn where "jobs s2 n = Some jn" "\<not> is_started jn"
    "process_result (advanced h s2) = start_job n jn (advanced h s2)"
proof -
  have ne: "pending_jobs s2 \<noteq> []" using T by auto
  then have P: "pending_jobs s2 = h # n # ns" using H T by (cases "pending_jobs s2") auto
  have nin: "n \<in> set (pending_jobs s2)" using P by simp
  have "distinct (pending_jobs s2)" using sorted_lt_distinct[OF inv_sorted[OF I]] .
  then have nh: "n \<noteq> h" using P by auto
  from inv_pending_job[OF I nin] obtain jn where jn: "jobs s2 n = Some jn" by blast
  have "job_st (pending_jobs s2) (trace s2) (in_flight s2 n) n jn"
    using inv_job[OF I jn] by (simp add: job_ok_def)
  from job_st_front[OF this nin] have ns: "\<not> is_started jn" using H nh by auto
  have "pending_jobs (advanced h s2) = n # ns" "jobs (advanced h s2) n = Some jn"
    using P jn by (simp_all add: advanced_def)
  from process_result_start[OF this ns] show ?thesis using that jn ns by blast
qed

text \<open>
  C4. The worker posts the completion of a job with the code the engine returned, and
  leaves what the engine wrote in the job's own buffer. When the completion of a job
  that is not cancelled runs on the origin thread, the callback of the job runs with
  that code, and it is the only run of a callback of this job: none before, one after.
  The output slot is written, from the job's buffer, when the code is not negative,
  and before the callback; when the code is negative the memory is what it was. In
  every reachable state a job has had at most one run of its callback, and exactly one
  when it is not cancelled and has left the queue. The completion does not fail: the
  write of the slot succeeds, and whenever the callback returns the completion returns,
  with the effects above; with a callback that calls nothing it always returns. The
  turn of the worker on a query returns as well, unless the engine answers the pending
  sentinel, which \<^verbatim>\<open>DoQuery\<close> forbids.
\<close>

theorem completion_delivers_result_once:
  assumes "exec w xs (init_state mem) = Inr s"
  shows "(\<forall>h ts j s'. worker_loop s = DoQuery h # ts \<longrightarrow> jobs s h = Some j \<longrightarrow>
            worker_step w s = Inr s' \<longrightarrow>
            origin_loop s' = origin_loop s @ [(h, fst (engine w (engine_log s) (url j)))] \<and>
            jobs s' h = Some (j\<lparr>results_buf := snd (engine w (engine_log s) (url j))\<rparr>) \<and>
            memory s' = memory s) \<and>
         (\<forall>h rv rest j s'. origin_loop s = (h, rv) # rest \<longrightarrow> jobs s h = Some j \<longrightarrow>
            \<not> was_cancelled j \<longrightarrow> origin_step w s = Inr s' \<longrightarrow>
            (\<exists>c r ev. callback j = Some c \<and> results j = Some r \<and>
               trace s' = trace s @ (if OK \<le> rv then [EvUse h r (results_buf j)] else []) @
                  [EvCallbackRun h c rv] @ ev \<and>
               (\<forall>e\<in>set ev. api_event e \<or> e = EvAdvance h) \<and>
               callback_runs (trace s) h = 0 \<and> callback_runs (trace s') h = 1 \<and>
               memory s' = (if OK \<le> rv then (memory s)(r := results_buf j) else memory s))) \<and>
         (\<forall>h j. jobs s h = Some j \<longrightarrow>
            callback_runs (trace s) h \<le> 1 \<and>
            (\<not> was_cancelled j \<longrightarrow> h \<notin> set (pending_jobs s) \<longrightarrow>
               callback_runs (trace s) h = 1)) \<and>
         (\<forall>h rv rest j c. origin_loop s = (h, rv) # rest \<longrightarrow> jobs s h = Some j \<longrightarrow>
            callback j = Some c \<longrightarrow>
            (\<exists>r s1. results j = Some r \<and>
               (if OK \<le> rv then Results_Use h j (s\<lparr>origin_loop := rest\<rparr>)
                else Inr (s\<lparr>origin_loop := rest\<rparr>)) = Inr s1 \<and>
               memory s1 = (if OK \<le> rv then (memory s)(r := results_buf j) else memory s) \<and>
               (\<forall>s2. Callback_Run w h c rv s1 = Inr s2 \<longrightarrow>
                  (\<exists>s' ev. origin_step w s = Inr s' \<and>
                     trace s' = trace s @
                        (if OK \<le> rv then [EvUse h r (results_buf j)] else []) @
                        [EvCallbackRun h c rv] @ ev \<and>
                     (\<forall>e\<in>set ev. api_event e \<or> e = EvAdvance h) \<and>
                     callback_runs (trace s') h = 1 \<and>
                     memory s' =
                       (if OK \<le> rv then (memory s)(r := results_buf j) else memory s))) \<and>
               (on_complete w c rv = [] \<longrightarrow>
                  (\<exists>s'. origin_step w s = Inr s' \<and> callback_runs (trace s') h = 1 \<and>
                     memory s' =
                       (if OK \<le> rv then (memory s)(r := results_buf j) else memory s))))) \<and>
         (\<forall>h ts. worker_loop s = DoQuery h # ts \<longrightarrow>
            (\<exists>j. jobs s h = Some j \<and>
               (fst (engine w (engine_log s) (url j)) \<noteq> ERR_IO_PENDING \<longrightarrow>
                  (\<exists>s'. worker_step w s = Inr s'))))"
proof -
  have I: "consistent s" using inv_reachable[OF assms] .
  have a: "\<And>h ts j s'. worker_loop s = DoQuery h # ts \<Longrightarrow> jobs s h = Some j \<Longrightarrow>
            worker_step w s = Inr s' \<Longrightarrow>
            origin_loop s' = origin_loop s @ [(h, fst (engine w (engine_log s) (url j)))] \<and>
            jobs s' h = Some (j\<lparr>results_buf := snd (engine w (engine_log s) (url j))\<rparr>) \<and>
            memory s' = memory s"
  proof -
    fix h ts j s'
    assume "worker_loop s = DoQuery h # ts" "jobs s h = Some j" "worker_step w s = Inr s'"
    from this(3) this(1,2) show "origin_loop s' = origin_loop s @ [(h, fst (engine w (engine_log s) (url j)))] \<and>
            jobs s' h = Some (j\<lparr>results_buf := snd (engine w (engine_log s) (url j))\<rparr>) \<and>
            memory s' = memory s"
      by (cases rule: worker_step_cases) (auto simp add: ran_query_def)
  qed
  have b: "\<exists>c r ev. callback j = Some c \<and> results j = Some r \<and>
               trace s' = trace s @ (if OK \<le> rv then [EvUse h r (results_buf j)] else []) @
                  [EvCallbackRun h c rv] @ ev \<and>
               (\<forall>e\<in>set ev. api_event e \<or> e = EvAdvance h) \<and>
               callback_runs (trace s) h = 0 \<and> callback_runs (trace s') h = 1 \<and>
               memory s' = (if OK \<le> rv then (memory s)(r := results_buf j) else memory s)"
    if h: "origin_loop s = (h, rv) # rest" "jobs s h = Some j" "\<not> was_cancelled j"
      "origin_step w s = Inr s'" for h rv rest j s'
    by (rule origin_step_live[OF I h]) blast
  have c: "\<And>h j. jobs s h = Some j \<Longrightarrow>
            callback_runs (trace s) h \<le> 1 \<and>
            (\<not> was_cancelled j \<longrightarrow> h \<notin> set (pending_jobs s) \<longrightarrow>
               callback_runs (trace s) h = 1)"
  proof -
    fix h j assume "jobs s h = Some j"
    then have st: "job_st (pending_jobs s) (trace s) (in_flight s h) h j"
      using inv_job[OF I] by (simp add: job_ok_def)
    show "callback_runs (trace s) h \<le> 1 \<and>
            (\<not> was_cancelled j \<longrightarrow> h \<notin> set (pending_jobs s) \<longrightarrow>
               callback_runs (trace s) h = 1)"
      using job_st_runs_le[OF st] job_st_left_queue[OF st] by auto
  qed
  have e: "\<exists>r s1. results j = Some r \<and>
               (if OK \<le> rv then Results_Use h j (s\<lparr>origin_loop := rest\<rparr>)
                else Inr (s\<lparr>origin_loop := rest\<rparr>)) = Inr s1 \<and>
               memory s1 = (if OK \<le> rv then (memory s)(r := results_buf j) else memory s) \<and>
               (\<forall>s2. Callback_Run w h c rv s1 = Inr s2 \<longrightarrow>
                  (\<exists>s' ev. origin_step w s = Inr s' \<and>
                     trace s' = trace s @
                        (if OK \<le> rv then [EvUse h r (results_buf j)] else []) @
                        [EvCallbackRun h c rv] @ ev \<and>
                     (\<forall>e\<in>set ev. api_event e \<or> e = EvAdvance h) \<and>
                     callback_runs (trace s') h = 1 \<and>
                     memory s' =
                       (if OK \<le> rv then (memory s)(r := results_buf j) else memory s))) \<and>
               (on_complete w c rv = [] \<longrightarrow>
                  (\<exists>s'. origin_step w s = Inr s' \<and> callback_runs (trace s') h = 1 \<and>
                     memory s' =
                       (if OK \<le> rv then (memory s)(r := results_buf j) else memory s)))"
    if L: "origin_loop s = (h, rv) # rest" and J: "jobs s h = Some j"
      and cb: "callback j = Some c" for h rv rest j c
  proof -
    have C: "\<not> was_cancelled j" using cb by (simp add: was_cancelled_def)
    let ?s0 = "s\<lparr>origin_loop := rest\<rparr>"
    let ?d = "begin_callback h j rv ?s0"
    from inv_begin_callback[OF I L J C] have "results j \<noteq> None" by simp
    then obtain r where r: "results j = Some r" by auto
    let ?s1 = "?s0\<lparr>memory := (if OK \<le> rv then (memory ?s0)(r := results_buf j) else memory ?s0),
                 trace := trace ?s0 @ (if OK \<le> rv then [EvUse h r (results_buf j)] else [])\<rparr>"
    have U: "(if OK \<le> rv then Results_Use h j ?s0 else Inr ?s0) = Inr ?s1"
      using begin_callback_use[OF r] .
    have R: "Callback_Run w h c rv ?s1 = call_apis w (on_complete w c rv) ?d"
      using begin_callback_run[OF r cb] .
    have M: "memory ?s1 = (if OK \<le> rv then (memory s)(r := results_buf j) else memory s)"
      by simp
    have O: "origin_step w s = Job_QueryComplete w h rv ?s0"
      using L by (simp add: origin_step_def)
    have G: "\<exists>s' ev. origin_step w s = Inr s' \<and>
                     trace s' = trace s @
                        (if OK \<le> rv then [EvUse h r (results_buf j)] else []) @
                        [EvCallbackRun h c rv] @ ev \<and>
                     (\<forall>e\<in>set ev. api_event e \<or> e = EvAdvance h) \<and>
                     callback_runs (trace s') h = 1 \<and>
                     memory s' =
                       (if OK \<le> rv then (memory s)(r := results_buf j) else memory s)"
      if S: "Callback_Run w h c rv ?s1 = Inr s2" for s2
    proof -
      have S2: "call_apis w (on_complete w (the (callback j)) rv) ?d = Inr s2"
        using S R cb by simp
      have "\<exists>s'. origin_step w s = Inr s'"
        by (rule QueryComplete_after_callback[OF I L J C S2]) (use O in metis)
      then obtain s' where O': "origin_step w s = Inr s'" by blast
      from b[OF L J C O'] cb r show ?thesis using O' by auto
    qed
    have N: "\<exists>s'. origin_step w s = Inr s' \<and> callback_runs (trace s') h = 1 \<and>
                     memory s' =
                       (if OK \<le> rv then (memory s)(r := results_buf j) else memory s)"
      if oc: "on_complete w c rv = []"
    proof -
      have "Callback_Run w h c rv ?s1 = Inr ?d" unfolding R oc by simp
      from G[OF this] show ?thesis by blast
    qed
    show ?thesis using r U M G N by (intro exI[of _ r] exI[of _ ?s1]) (simp only: simp_thms, blast)
  qed
  have t: "\<exists>j. jobs s h = Some j \<and>
               (fst (engine w (engine_log s) (url j)) \<noteq> ERR_IO_PENDING \<longrightarrow>
                  (\<exists>s'. worker_step w s = Inr s'))"
    if W: "worker_loop s = DoQuery h # ts" for h ts
  proof -
    have "0 < in_flight s h" using W by (simp add: in_flight_def)
    from in_flight_allocated[OF I this] obtain j where j: "jobs s h = Some j" by blast
    show ?thesis using W j
      by (auto simp add: worker_step_def Job_DoQuery_def Let_def split: prod.splits)
  qed
  show ?thesis using a b c e t by blast
qed

text \<open>
  C6. In the completion of a job that is not cancelled, the write of the slot (on a
  code that is not negative) succeeds, and whenever the callback returns the job is
  looked at again. If the callback cancelled it, the completion returns the state the
  callback left, with nothing added; a callback that destroyed the resolver has
  cancelled the job. Otherwise the resolver is alive and the job is the front of the
  queue: the completion returns after removing it and starting the next job, if there
  is one, whose query is posted to the worker. A callback that cancels its own request
  returns, and so does one that destroys the resolver when the engine never answers the
  pending sentinel: the completion then ends in the state they left.
\<close>

theorem completion_rechecks_cancellation:
  assumes "exec w xs (init_state mem) = Inr s"
    and "origin_loop s = (h, rv) # rest" and "jobs s h = Some j" and "callback j = Some c"
  shows "(\<exists>s1. (if OK \<le> rv then Results_Use h j (s\<lparr>origin_loop := rest\<rparr>)
                else Inr (s\<lparr>origin_loop := rest\<rparr>)) = Inr s1) \<and>
         (\<forall>s1 s2. (if OK \<le> rv then Results_Use h j (s\<lparr>origin_loop := rest\<rparr>)
                   else Inr (s\<lparr>origin_loop := rest\<rparr>)) = Inr s1 \<longrightarrow>
            Callback_Run w h c rv s1 = Inr s2 \<longrightarrow>
              (\<exists>j2. jobs s2 h = Some j2 \<and>
                 (destroyed s2 \<longrightarrow> was_cancelled j2) \<and>
                 (was_cancelled j2 \<longrightarrow> origin_step w s = Inr s2) \<and>
                 (\<not> was_cancelled j2 \<longrightarrow>
                    coordinator j2 \<and> \<not> destroyed s2 \<and> pending_jobs s2 \<noteq> [] \<and>
                    hd (pending_jobs s2) = h \<and>
                    (\<exists>s'. origin_step w s = Inr s' \<and>
                       RemoveFrontOfJobsQueueAndStartNext h
                         (s2\<lparr>trace := trace s2 @ [EvAdvance h]\<rparr>) = Inr s' \<and>
                       pending_jobs s' = tl (pending_jobs s2) \<and>
                       (tl (pending_jobs s2) = [] \<longrightarrow>
                          trace s' = trace s2 @ [EvAdvance h] \<and>
                          worker_loop s' = worker_loop s2 \<and> jobs s' = jobs s2) \<and>
                       (\<forall>n ns. tl (pending_jobs s2) = n # ns \<longrightarrow>
                          (\<exists>jn. jobs s2 n = Some jn \<and> \<not> is_started jn \<and>
                             jobs s' n = Some (jn\<lparr>is_started := True\<rparr>) \<and>
                             worker_loop s' = worker_loop s2 @ [DoQuery n] \<and>
                             thread_started s' \<and>
                             trace s' = trace s2 @ [EvAdvance h] @
                               (if thread_started s2 then [] else [EvThreadStart]) @
                               [EvJobStart n])))))) \<and>
         (on_complete w c rv = [CallCancelRequest h] \<longrightarrow>
            (\<exists>s1 s2 j2. (if OK \<le> rv then Results_Use h j (s\<lparr>origin_loop := rest\<rparr>)
                          else Inr (s\<lparr>origin_loop := rest\<rparr>)) = Inr s1 \<and>
               Callback_Run w h c rv s1 = Inr s2 \<and> jobs s2 h = Some j2 \<and>
               was_cancelled j2 \<and> h \<notin> set (pending_jobs s2) \<and>
               origin_step w s = Inr s2)) \<and>
         ((\<forall>log u. fst (engine w log u) \<noteq> ERR_IO_PENDING) \<longrightarrow>
          on_complete w c rv = [CallDestroy] \<longrightarrow>
            (\<exists>s1 s2 j2. (if OK \<le> rv then Results_Use h j (s\<lparr>origin_loop := rest\<rparr>)
                          else Inr (s\<lparr>origin_loop := rest\<rparr>)) = Inr s1 \<and>
               Callback_Run w h c rv s1 = Inr s2 \<and> jobs s2 h = Some j2 \<and>
               was_cancelled j2 \<and> destroyed s2 \<and>
               origin_step w s = Inr s2))"
proof -
  have I: "consistent s" using inv_reachable[OF assms(1)] .
  note L = assms(2) and J = assms(3) and cb = assms(4)
  have C: "\<not> was_cancelled j" using cb by (simp add: was_cancelled_def)
  let ?s0 = "s\<lparr>origin_loop := rest\<rparr>"
  let ?d = "begin_callback h j rv ?s0"
  from inv_begin_callback[OF I L J C] have d: "consistent ?d" "pending_jobs s \<noteq> []"
    "hd (pending_jobs s) = h" "results j \<noteq> None" by simp_all
  obtain r where r: "results j = Some r" using d(4) by auto
  let ?s1 = "?s0\<lparr>memory := (if OK \<le> rv then (memory ?s0)(r := results_buf j) else memory ?s0),
                 trace := trace ?s0 @ (if OK \<le> rv then [EvUse h r (results_buf j)] else [])\<rparr>"
  have U: "(if OK \<le> rv then Results_Use h j ?s0 else Inr ?s0) = Inr ?s1"
    using begin_callback_use[OF r] .
  have R: "Callback_Run w h c rv ?s1 = call_apis w (on_complete w c rv) ?d"
    using begin_callback_run[OF r cb] .
  have O: "origin_step w s = Job_QueryComplete w h rv ?s0" using L by (simp add: origin_step_def)
  have Jd: "jobs ?d h = Some j" using J by (simp add: begin_callback_def)
  have hp: "h \<in> set (pending_jobs ?d)" using d(2,3) by (auto simp add: begin_callback_def)
  have nd: "\<not> destroyed ?d" using inv_thr[OF d(1)] hp by (auto simp: inv_thread_def)
  have G: "\<exists>j2. jobs s2 h = Some j2 \<and>
                 (destroyed s2 \<longrightarrow> was_cancelled j2) \<and>
                 (was_cancelled j2 \<longrightarrow> origin_step w s = Inr s2) \<and>
                 (\<not> was_cancelled j2 \<longrightarrow>
                    coordinator j2 \<and> \<not> destroyed s2 \<and> pending_jobs s2 \<noteq> [] \<and>
                    hd (pending_jobs s2) = h \<and>
                    (\<exists>s'. origin_step w s = Inr s' \<and>
                       RemoveFrontOfJobsQueueAndStartNext h
                         (s2\<lparr>trace := trace s2 @ [EvAdvance h]\<rparr>) = Inr s' \<and>
                       pending_jobs s' = tl (pending_jobs s2) \<and>
                       (tl (pending_jobs s2) = [] \<longrightarrow>
                          trace s' = trace s2 @ [EvAdvance h] \<and>
                          worker_loop s' = worker_loop s2 \<and> jobs s' = jobs s2) \<and>
                       (\<forall>n ns. tl (pending_jobs s2) = n # ns \<longrightarrow>
                          (\<exists>jn. jobs s2 n = Some jn \<and> \<not> is_started jn \<and>
                             jobs s' n = Some (jn\<lparr>is_started := True\<rparr>) \<and>
                             worker_loop s' = worker_loop s2 @ [DoQuery n] \<and>
                             thread_started s' \<and>
                             trace s' = trace s2 @ [EvAdvance h] @
                               (if thread_started s2 then [] else [EvThreadStart]) @
                               [EvJobStart n]))))"
    if S: "Callback_Run w h c rv ?s1 = Inr s2" for s2
  proof -
    have S2: "call_apis w (on_complete w (the (callback j)) rv) ?d = Inr s2"
      using S R cb by simp
    from QueryComplete_after_callback[OF I L J C S2] obtain j2 where
      j2: "jobs s2 h = Some j2" "consistent s2"
      "was_cancelled j2 \<Longrightarrow> Job_QueryComplete w h rv ?s0 = Inr s2"
      "\<not> was_cancelled j2 \<Longrightarrow>
         coordinator j2 \<and> \<not> destroyed s2 \<and> pending_jobs s2 \<noteq> [] \<and> hd (pending_jobs s2) = h \<and>
         consistent (advanced h s2) \<and>
         Job_QueryComplete w h rv ?s0 = Inr (process_result (advanced h s2)) \<and>
         RemoveFrontOfJobsQueueAndStartNext h (s2\<lparr>trace := trace s2 @ [EvAdvance h]\<rparr>) =
           Inr (process_result (advanced h s2))"
      by blast
    show ?thesis
    proof (cases "was_cancelled j2")
      case True
      then show ?thesis using j2(1) j2(3) O by auto
    next
      case False
      from j2(4)[OF False] have f: "coordinator j2" "\<not> destroyed s2" "pending_jobs s2 \<noteq> []"
        "hd (pending_jobs s2) = h" "consistent (advanced h s2)"
        "Job_QueryComplete w h rv ?s0 = Inr (process_result (advanced h s2))"
        "RemoveFrontOfJobsQueueAndStartNext h (s2\<lparr>trace := trace s2 @ [EvAdvance h]\<rparr>) =
           Inr (process_result (advanced h s2))" by simp_all
      let ?s' = "process_result (advanced h s2)"
      have p1: "pending_jobs ?s' = tl (pending_jobs s2)"
        by (simp add: process_result_frame advanced_def)
      have p2: "trace ?s' = trace s2 @ [EvAdvance h] \<and>
                          worker_loop ?s' = worker_loop s2 \<and> jobs ?s' = jobs s2"
        if "tl (pending_jobs s2) = []"
        using that by (simp add: process_result_def advanced_def)
      have p3: "\<exists>jn. jobs s2 n = Some jn \<and> \<not> is_started jn \<and>
                             jobs ?s' n = Some (jn\<lparr>is_started := True\<rparr>) \<and>
                             worker_loop ?s' = worker_loop s2 @ [DoQuery n] \<and>
                             thread_started ?s' \<and>
                             trace ?s' = trace s2 @ [EvAdvance h] @
                               (if thread_started s2 then [] else [EvThreadStart]) @
                               [EvJobStart n]"
        if T: "tl (pending_jobs s2) = n # ns" for n ns
      proof -
        from advance_starts_next[OF j2(2) f(4) T f(5)] obtain jn where
          jn: "jobs s2 n = Some jn" "\<not> is_started jn" "?s' = start_job n jn (advanced h s2)"
          by blast
        show ?thesis unfolding jn(3) using jn(1,2)
          by (simp add: start_job_def EnsureThreadStarted_eq advanced_def)
      qed
      have "\<exists>s'. origin_step w s = Inr s' \<and>
                       RemoveFrontOfJobsQueueAndStartNext h
                         (s2\<lparr>trace := trace s2 @ [EvAdvance h]\<rparr>) = Inr s' \<and>
                       pending_jobs s' = tl (pending_jobs s2) \<and>
                       (tl (pending_jobs s2) = [] \<longrightarrow>
                          trace s' = trace s2 @ [EvAdvance h] \<and>
                          worker_loop s' = worker_loop s2 \<and> jobs s' = jobs s2) \<and>
                       (\<forall>n ns. tl (pending_jobs s2) = n # ns \<longrightarrow>
                          (\<exists>jn. jobs s2 n = Some jn \<and> \<not> is_started jn \<and>
                             jobs s' n = Some (jn\<lparr>is_started := True\<rparr>) \<and>
                             worker_loop s' = worker_loop s2 @ [DoQuery n] \<and>
                             thread_started s' \<and>
                             trace s' = trace s2 @ [EvAdvance h] @
                               (if thread_started s2 then [] else [EvThreadStart]) @
                               [EvJobStart n]))"
        using O f(6,7) p1 p2 p3 by (intro exI[of _ ?s']) (simp only: simp_thms, blast)
      then show ?thesis using False j2(1) f(1-4) by blast
    qed
  qed
  have K: "\<exists>s2 j2. Callback_Run w h c rv ?s1 = Inr s2 \<and> jobs s2 h = Some j2 \<and>
                 was_cancelled j2 \<and> h \<notin> set (pending_jobs s2) \<and>
                 origin_step w s = Inr s2"
    if oc: "on_complete w c rv = [CallCancelRequest h]"
  proof -
    let ?s2 = "if is_started j then process_result (cancel_remove h j ?d) else cancel_remove h j ?d"
    have CR: "CancelRequest h ?d = Inr ?s2" using CancelRequest_eq[OF d(1) Jd hp] .
    have run: "Callback_Run w h c rv ?s1 = Inr ?s2"
      unfolding R oc using nd CR by simp
    from G[OF run] obtain j2 where j2: "jobs ?s2 h = Some j2"
      "was_cancelled j2 \<longrightarrow> origin_step w s = Inr ?s2" by blast
    have "jobs (cancel_remove h j ?d) h =
        Some (j\<lparr>coordinator := False, callback := None, results := None\<rparr>)"
      by (simp add: cancel_remove_def)
    moreover have "kept (cancel_remove h j ?d) ?s2"
      using kept_process_result[OF inv_cancel_remove[OF d(1) Jd hp]] kept_refl by simp
    ultimately have wc: "was_cancelled j2"
      using j2(1) kept_evolves unfolding evolves_def by (fastforce simp: was_cancelled_def)
    have "distinct (pending_jobs ?d)" using sorted_lt_distinct[OF inv_sorted[OF d(1)]] .
    then have "h \<notin> set (pending_jobs ?s2)"
      by (simp add: process_result_frame cancel_remove_def)
    then show ?thesis using run j2 wc by blast
  qed
  have X: "\<exists>s2 j2. Callback_Run w h c rv ?s1 = Inr s2 \<and> jobs s2 h = Some j2 \<and>
                 was_cancelled j2 \<and> destroyed s2 \<and>
                 origin_step w s = Inr s2"
    if E: "\<forall>log u. fst (engine w log u) \<noteq> ERR_IO_PENDING"
      and oc: "on_complete w c rv = [CallDestroy]"
  proof -
    from Destructor_total[OF d(1) E] obtain s2 where D: "Destructor w ?d = Inr s2" by blast
    have run: "Callback_Run w h c rv ?s1 = Inr s2"
      unfolding R oc using nd D by simp
    from Destructor_props[OF d(1) D] have ds: "destroyed s2" by simp
    from G[OF run] ds obtain j2 where "jobs s2 h = Some j2" "was_cancelled j2"
      "origin_step w s = Inr s2" by blast
    then show ?thesis using run ds by blast
  qed
  have G': "\<exists>j2. jobs s2 h = Some j2 \<and>
                 (destroyed s2 \<longrightarrow> was_cancelled j2) \<and>
                 (was_cancelled j2 \<longrightarrow> origin_step w s = Inr s2) \<and>
                 (\<not> was_cancelled j2 \<longrightarrow>
                    coordinator j2 \<and> \<not> destroyed s2 \<and> pending_jobs s2 \<noteq> [] \<and>
                    hd (pending_jobs s2) = h \<and>
                    (\<exists>s'. origin_step w s = Inr s' \<and>
                       RemoveFrontOfJobsQueueAndStartNext h
                         (s2\<lparr>trace := trace s2 @ [EvAdvance h]\<rparr>) = Inr s' \<and>
                       pending_jobs s' = tl (pending_jobs s2) \<and>
                       (tl (pending_jobs s2) = [] \<longrightarrow>
                          trace s' = trace s2 @ [EvAdvance h] \<and>
                          worker_loop s' = worker_loop s2 \<and> jobs s' = jobs s2) \<and>
                       (\<forall>n ns. tl (pending_jobs s2) = n # ns \<longrightarrow>
                          (\<exists>jn. jobs s2 n = Some jn \<and> \<not> is_started jn \<and>
                             jobs s' n = Some (jn\<lparr>is_started := True\<rparr>) \<and>
                             worker_loop s' = worker_loop s2 @ [DoQuery n] \<and>
                             thread_started s' \<and>
                             trace s' = trace s2 @ [EvAdvance h] @
                               (if thread_started s2 then [] else [EvThreadStart]) @
                               [EvJobStart n]))))"
    if S1: "(if OK \<le> rv then Results_Use h j ?s0 else Inr ?s0) = Inr s1"
      and S: "Callback_Run w h c rv s1 = Inr s2" for s1 s2
  proof -
    have "s1 = ?s1" using S1 U by simp
    then show ?thesis using G S by simp
  qed
  have K': "\<exists>s1 s2 j2. (if OK \<le> rv then Results_Use h j ?s0 else Inr ?s0) = Inr s1 \<and>
               Callback_Run w h c rv s1 = Inr s2 \<and> jobs s2 h = Some j2 \<and>
               was_cancelled j2 \<and> h \<notin> set (pending_jobs s2) \<and>
               origin_step w s = Inr s2"
    if "on_complete w c rv = [CallCancelRequest h]"
    using K[OF that] U by blast
  have X': "\<exists>s1 s2 j2. (if OK \<le> rv then Results_Use h j ?s0 else Inr ?s0) = Inr s1 \<and>
               Callback_Run w h c rv s1 = Inr s2 \<and> jobs s2 h = Some j2 \<and>
               was_cancelled j2 \<and> destroyed s2 \<and>
               origin_step w s = Inr s2"
    if "\<forall>log u. fst (engine w log u) \<noteq> ERR_IO_PENDING" "on_complete w c rv = [CallDestroy]"
    using X[OF that] U by blast
  have U': "\<exists>s1. (if OK \<le> rv then Results_Use h j ?s0 else Inr ?s0) = Inr s1"
    using U by blast
  show ?thesis
  proof (intro conjI allI impI)
    show "\<exists>s1. (if OK \<le> rv then Results_Use h j ?s0 else Inr ?s0) = Inr s1" using U' .
  qed (use G' K' X' in blast)+
qed







lemma idle_step:
  assumes "idle s" "\<not> is_submission x" "step w x s = Inr s'"
  shows "idle s'"
proof (cases x)
  case (Call a)
  have D: "\<not> destroyed s" using assms(3) Call by (auto split: if_splits)
  show ?thesis
  proof (cases a)
    case (CallCancelRequest req)
    then have "CancelRequest req s = Inr s'" using assms(3) Call D by simp
    from CancelRequest_Inr[OF this] show ?thesis using assms(1) by (simp add: idle_def)
  next
    case CallDestroy
    then have "Destructor w s = Inr s'" using assms(3) Call D by simp
    then show ?thesis using assms(1)
      by (auto simp add: idle_def Destructor_def destroy_members_def Thread_destroy_def)
  qed (use assms(2) Call in simp_all)
next
  case WorkerStep
  then show ?thesis using assms by (simp add: idle_def worker_step_def)
next
  case OriginStep
  then show ?thesis using assms by (simp add: idle_def origin_step_def)
qed

lemma idle_exec:
  assumes "idle s" "\<forall>x\<in>set xs. \<not> is_submission x" "exec w xs s = Inr s'"
  shows "idle s'"
  using assms
proof (induction xs arbitrary: s)
  case Nil
  then show ?case by simp
next
  case (Cons x xs)
  from Cons.prems(3) obtain s1 where s1: "step w x s = Inr s1" "exec w xs s1 = Inr s'"
    by (auto split: sum.splits)
  have "idle s1" using idle_step[OF Cons.prems(1) _ s1(1)] Cons.prems(2) by simp
  from Cons.IH[OF this _ s1(2)] Cons.prems(2) show ?case by simp
qed

text \<open>
  C9. The worker thread does not exist in the initial state, and as long as nothing
  has been submitted (no query and no configuration call) it is not started. In every
  reachable state it has been started at most once; when it exists it has been started
  exactly once and the resolver is not destroyed; it is stopped only by the
  destruction of the resolver; and once it exists it exists in every later state until
  the resolver is destroyed. \<^verbatim>\<open>EnsureThreadStarted\<close> does nothing when it exists.
\<close>

theorem worker_started_lazily_once:
  assumes "exec w xs (init_state mem) = Inr s"
  shows "\<not> thread_started (init_state mem) \<and>
         ((\<forall>x\<in>set xs. \<not> is_submission x) \<longrightarrow>
            \<not> thread_started s \<and> EvThreadStart \<notin> set (trace s)) \<and>
         count_list (trace s) EvThreadStart \<le> 1 \<and>
         (thread_started s \<longrightarrow> count_list (trace s) EvThreadStart = 1 \<and> \<not> destroyed s) \<and>
         (EvThreadStop \<in> set (trace s) \<longrightarrow> destroyed s) \<and>
         (thread_started s \<longrightarrow> EnsureThreadStarted s = s) \<and>
         (\<not> thread_started s \<longrightarrow>
            thread_started (EnsureThreadStarted s) \<and>
            trace (EnsureThreadStarted s) = trace s @ [EvThreadStart]) \<and>
         (\<forall>ys s'. exec w ys s = Inr s' \<longrightarrow> thread_started s \<longrightarrow>
            thread_started s' \<or> destroyed s')"
proof -
  have I: "consistent s" using inv_reachable[OF assms] .
  have a: "(\<forall>x\<in>set xs. \<not> is_submission x) \<longrightarrow>
            \<not> thread_started s \<and> EvThreadStart \<notin> set (trace s)"
  proof
    assume n: "\<forall>x\<in>set xs. \<not> is_submission x"
    have "idle (init_state mem)" by (simp add: idle_def init_state_def)
    from idle_exec[OF this n assms] show "\<not> thread_started s \<and> EvThreadStart \<notin> set (trace s)"
      by (simp add: idle_def)
  qed
  have b: "thread_started s' \<or> destroyed s'"
    if h: "exec w ys s = Inr s'" "thread_started s" for ys s'
  proof -
    from exec_props[OF I h(1)] have I': "consistent s'" and E: "evolves s s'" by simp_all
    have "count_list (trace s) EvThreadStart = 1" using inv_thr[OF I] h(2)
      by (simp add: inv_thread_def)
    then have "EvThreadStart \<in> set (trace s)"
      using count_list_0_iff[of "trace s" EvThreadStart] by auto
    then have "EvThreadStart \<in> set (trace s')" using E by (auto simp add: evolves_def)
    then show ?thesis using inv_thr[OF I'] by (auto simp add: inv_thread_def)
  qed
  show ?thesis using inv_thr[OF I] a b
    by (auto simp add: inv_thread_def init_state_def EnsureThreadStarted_def)
qed

section \<open>The claims on concrete runs\<close>

lemma exec_append:
  "exec w (xs @ ys) s = (case exec w xs s of Inl e \<Rightarrow> Inl e | Inr s' \<Rightarrow> exec w ys s')"
  by (induction xs arbitrary: s) (auto split: sum.splits)

text \<open>
  C1 as stated fails: two started jobs can have their queries on the worker. Query
  \<open>a\<close> is running and \<open>b\<close> waits; the caller cancels \<open>a\<close>. \<^verbatim>\<open>CancelRequest\<close> removes \<open>a\<close>
  from the queue and starts \<open>b\<close> at once, while the query of \<open>a\<close> is still on the
  worker's loop. Both jobs are started and have a task in flight, and the query the
  worker runs next, that of \<open>a\<close>, is not the one of the front of the queue.
\<close>

theorem cancelled_query_overlaps_next:
  "map_sum id (\<lambda>s. (pending_jobs s, map (map_option is_started \<circ> jobs s) [1, 2],
                     worker_loop s, in_flight s 1, in_flight s 2))
     (exec demo_world [Call (CallGetProxyForURL ''a'' 7 (Some 3)), Call (CallGetProxyForURL ''b'' 8 (Some 4)),
        Call (CallCancelRequest 1)] (init_state demo_memory)) =
   Inr ([2], [Some True, Some True], [DoQuery 1, DoQuery 2], 1, 1) \<and>
   map_sum id (\<lambda>s. (pending_jobs s, map (map_option is_started \<circ> jobs s) [1, 2],
                     last (trace s), worker_loop s, origin_loop s, engine_log s))
     (exec demo_world [Call (CallGetProxyForURL ''a'' 7 (Some 3)), Call (CallGetProxyForURL ''b'' 8 (Some 4)),
        Call (CallCancelRequest 1), WorkerStep] (init_state demo_memory)) =
   Inr ([2], [Some True, Some True], EvRun (DoQuery 1), [DoQuery 2], [(1, 0)],
        [EngGetProxyForURL ''a''])"
  by (simp add: run_defs)

theorem fifo_single_flight_witness:
  "(\<exists>s j. exec demo_world [Call (CallGetProxyForURL ''a'' 7 (Some 3)), Call (CallGetProxyForURL ''b'' 8 (Some 4))] (init_state demo_memory) = Inr s \<and>
       pending_jobs s = [1, 2] \<and> starts (trace s) = [1] \<and> jobs s 1 = Some j \<and>
       \<not> was_cancelled j \<and> in_flight s 1 = 1 \<and> in_flight s 2 = 0 \<and>
       sorted_wrt (<) (pending_jobs s) \<and> sorted_wrt (<) (starts (trace s)) \<and>
       is_started j \<and> hd (pending_jobs s) = 1) \<and>
   (\<exists>s j j2. exec demo_world [Call (CallGetProxyForURL ''a'' 7 (Some 3)), Call (CallGetProxyForURL ''b'' 8 (Some 4)),
          Call (CallCancelRequest 1)] (init_state demo_memory) = Inr s \<and>
       jobs s 1 = Some j \<and> was_cancelled j \<and> in_flight s 1 = 1 \<and>
       jobs s 2 = Some j2 \<and> is_started j2 \<and>
       is_started j \<and> 1 \<notin> set (pending_jobs s) \<and> callback_runs (trace s) 1 = 0)"
proof -
  have "\<exists>s j. exec demo_world [Call (CallGetProxyForURL ''a'' 7 (Some 3)), Call (CallGetProxyForURL ''b'' 8 (Some 4))] (init_state demo_memory) = Inr s \<and>
       pending_jobs s = [1, 2] \<and> starts (trace s) = [1] \<and> jobs s 1 = Some j \<and>
       \<not> was_cancelled j \<and> in_flight s 1 = 1 \<and> in_flight s 2 = 0"
    by (simp add: run_defs)
  then obtain s j where s: "exec demo_world [Call (CallGetProxyForURL ''a'' 7 (Some 3)), Call (CallGetProxyForURL ''b'' 8 (Some 4))] (init_state demo_memory) = Inr s"
    "pending_jobs s = [1, 2]" "starts (trace s) = [1]" "jobs s 1 = Some j"
    "\<not> was_cancelled j" "in_flight s 1 = 1" "in_flight s 2 = 0"
    by blast
  have p: "0 < in_flight s 1" using s(6) by simp
  from fifo_single_flight[OF s(1)] s(4,5) p
  have "sorted_wrt (<) (pending_jobs s)" "sorted_wrt (<) (starts (trace s))"
    "is_started j" "hd (pending_jobs s) = 1" by blast+
  with s have A: "\<exists>s j. exec demo_world [Call (CallGetProxyForURL ''a'' 7 (Some 3)), Call (CallGetProxyForURL ''b'' 8 (Some 4))] (init_state demo_memory) = Inr s \<and>
       pending_jobs s = [1, 2] \<and> starts (trace s) = [1] \<and> jobs s 1 = Some j \<and>
       \<not> was_cancelled j \<and> in_flight s 1 = 1 \<and> in_flight s 2 = 0 \<and>
       sorted_wrt (<) (pending_jobs s) \<and> sorted_wrt (<) (starts (trace s)) \<and>
       is_started j \<and> hd (pending_jobs s) = 1" by blast
  have "\<exists>s j j2. exec demo_world [Call (CallGetProxyForURL ''a'' 7 (Some 3)), Call (CallGetProxyForURL ''b'' 8 (Some 4)),
          Call (CallCancelRequest 1)] (init_state demo_memory) = Inr s \<and>
       jobs s 1 = Some j \<and> was_cancelled j \<and> in_flight s 1 = 1 \<and>
       jobs s 2 = Some j2 \<and> is_started j2"
    by (simp add: run_defs)
  then obtain t k k2 where t: "exec demo_world [Call (CallGetProxyForURL ''a'' 7 (Some 3)), Call (CallGetProxyForURL ''b'' 8 (Some 4)),
          Call (CallCancelRequest 1)] (init_state demo_memory) = Inr t"
    "jobs t 1 = Some k" "was_cancelled k" "in_flight t 1 = 1"
    "jobs t 2 = Some k2" "is_started k2" by blast
  have q: "0 < in_flight t 1" using t(4) by simp
  have lt: "(1::nat) < 2" by simp
  from fifo_single_flight[OF t(1)] t(2,3) q
  have c: "is_started k" "callback_runs (trace t) 1 = 0" by blast+
  from fifo_single_flight[OF t(1)] t(5,6) t(2) lt
  have "1 \<notin> set (pending_jobs t)" by blast
  with t c have B: "\<exists>s j j2. exec demo_world [Call (CallGetProxyForURL ''a'' 7 (Some 3)), Call (CallGetProxyForURL ''b'' 8 (Some 4)),
          Call (CallCancelRequest 1)] (init_state demo_memory) = Inr s \<and>
       jobs s 1 = Some j \<and> was_cancelled j \<and> in_flight s 1 = 1 \<and>
       jobs s 2 = Some j2 \<and> is_started j2 \<and>
       is_started j \<and> 1 \<notin> set (pending_jobs s) \<and> callback_runs (trace s) 1 = 0" by blast
  show ?thesis using A B by blast
qed

theorem cancel_silences_job_witness:
  "\<exists>s s1 s2. exec demo_world [Call (CallGetProxyForURL ''a'' 7 (Some 3))] (init_state demo_memory) = Inr s \<and>
       CancelRequest 1 s = Inr s1 \<and>
       exec demo_world [WorkerStep, OriginStep] s1 = Inr s2 \<and>
       origin_loop s1 = [] \<and> worker_loop s1 = [DoQuery 1] \<and>
       new_events s1 s2 = [EvRun (DoQuery 1)] \<and> memory s2 7 = ''old'' \<and>
       callback_runs (trace s2) 1 = callback_runs (trace s1) 1 \<and>
       callback_runs (trace s2) 1 = 0"
proof -
  have "\<exists>s s1 s2. exec demo_world [Call (CallGetProxyForURL ''a'' 7 (Some 3))] (init_state demo_memory) = Inr s \<and>
       CancelRequest 1 s = Inr s1 \<and>
       exec demo_world [WorkerStep, OriginStep] s1 = Inr s2 \<and>
       origin_loop s1 = [] \<and> worker_loop s1 = [DoQuery 1] \<and>
       new_events s1 s2 = [EvRun (DoQuery 1)] \<and> memory s2 7 = ''old'' \<and>
       callback_runs (trace s2) 1 = 0"
    by (simp add: run_defs)
  then obtain s s1 s2 where s: "exec demo_world [Call (CallGetProxyForURL ''a'' 7 (Some 3))] (init_state demo_memory) = Inr s"
    "CancelRequest 1 s = Inr s1" "exec demo_world [WorkerStep, OriginStep] s1 = Inr s2"
    "origin_loop s1 = []" "worker_loop s1 = [DoQuery 1]"
    "new_events s1 s2 = [EvRun (DoQuery 1)]" "memory s2 7 = ''old''"
    "callback_runs (trace s2) 1 = 0" by blast
  from cancel_silences_job[OF s(1)] s(2,3)
  have "callback_runs (trace s2) 1 = callback_runs (trace s1) 1" by blast
  with s show ?thesis by blast
qed


theorem completion_delivers_result_once_witness:
  "(\<exists>s j s'. exec demo_world [Call (CallGetProxyForURL ''a'' 7 (Some 3)), WorkerStep] (init_state demo_memory) = Inr s \<and>
       origin_loop s = [(1, 0)] \<and> jobs s 1 = Some j \<and> callback j = Some 3 \<and>
       results j = Some 7 \<and> results_buf j = ''DIRECT'' \<and> memory s 7 = ''old'' \<and>
       origin_step demo_world s = Inr s' \<and> callback_runs (trace s') 1 = 1 \<and>
       memory s' = (memory s)(7 := ''DIRECT'') \<and> memory s' 7 = ''DIRECT'') \<and>
   (\<exists>s j s'. exec demo_world [Call (CallGetProxyForURL ''bad'' 7 (Some 3)), WorkerStep] (init_state demo_memory) = Inr s \<and>
       origin_loop s = [(1, - 2)] \<and> jobs s 1 = Some j \<and> callback j = Some 3 \<and>
       results j = Some 7 \<and> memory s 7 = ''old'' \<and>
       origin_step demo_world s = Inr s' \<and> callback_runs (trace s') 1 = 1 \<and>
       memory s' = memory s \<and> memory s' 7 = ''old'')"
proof -
  have oc: "on_complete demo_world 3 rv = []" for rv by (simp add: demo_world_def)
  have "\<exists>s j. exec demo_world [Call (CallGetProxyForURL ''a'' 7 (Some 3)), WorkerStep] (init_state demo_memory) = Inr s \<and>
       origin_loop s = [(1, 0)] \<and> jobs s 1 = Some j \<and> callback j = Some 3 \<and>
       results j = Some 7 \<and> results_buf j = ''DIRECT'' \<and> memory s 7 = ''old''"
    by (simp add: run_defs)
  then obtain s j where s: "exec demo_world [Call (CallGetProxyForURL ''a'' 7 (Some 3)), WorkerStep] (init_state demo_memory) = Inr s"
    "origin_loop s = [(1, 0)]" "jobs s 1 = Some j" "callback j = Some 3"
    "results j = Some 7" "results_buf j = ''DIRECT''" "memory s 7 = ''old''" by blast
  from completion_delivers_result_once[OF s(1), THEN conjunct2, THEN conjunct2, THEN conjunct2, THEN conjunct1,
      rule_format, OF s(2,3,4)]
  have "\<exists>r s1. results j = Some r \<and>
          (on_complete demo_world 3 0 = [] \<longrightarrow>
             (\<exists>s'. origin_step demo_world s = Inr s' \<and> callback_runs (trace s') 1 = 1 \<and>
                memory s' = (if OK \<le> 0 then (memory s)(r := results_buf j) else memory s)))"
    by (elim exE conjE) (intro exI conjI, assumption+)
  then obtain s' where s': "origin_step demo_world s = Inr s'" "callback_runs (trace s') 1 = 1"
    "memory s' = (memory s)(7 := ''DIRECT'')"
    using oc s(5,6) by (auto simp add: OK_def)
  have A: "\<exists>s j s'. exec demo_world [Call (CallGetProxyForURL ''a'' 7 (Some 3)), WorkerStep] (init_state demo_memory) = Inr s \<and>
       origin_loop s = [(1, 0)] \<and> jobs s 1 = Some j \<and> callback j = Some 3 \<and>
       results j = Some 7 \<and> results_buf j = ''DIRECT'' \<and> memory s 7 = ''old'' \<and>
       origin_step demo_world s = Inr s' \<and> callback_runs (trace s') 1 = 1 \<and>
       memory s' = (memory s)(7 := ''DIRECT'') \<and> memory s' 7 = ''DIRECT''"
    using s s' by (intro exI[of _ s] exI[of _ j] exI[of _ s']) simp
  have "\<exists>s j. exec demo_world [Call (CallGetProxyForURL ''bad'' 7 (Some 3)), WorkerStep] (init_state demo_memory) = Inr s \<and>
       origin_loop s = [(1, - 2)] \<and> jobs s 1 = Some j \<and> callback j = Some 3 \<and>
       results j = Some 7 \<and> memory s 7 = ''old''"
    by (simp add: run_defs)
  then obtain t k where t: "exec demo_world [Call (CallGetProxyForURL ''bad'' 7 (Some 3)), WorkerStep] (init_state demo_memory) = Inr t"
    "origin_loop t = [(1, - 2)]" "jobs t 1 = Some k" "callback k = Some 3"
    "results k = Some 7" "memory t 7 = ''old''" by blast
  from completion_delivers_result_once[OF t(1), THEN conjunct2, THEN conjunct2, THEN conjunct2, THEN conjunct1,
      rule_format, OF t(2,3,4)]
  have "\<exists>r s1. results k = Some r \<and>
          (on_complete demo_world 3 (- 2) = [] \<longrightarrow>
             (\<exists>s'. origin_step demo_world t = Inr s' \<and> callback_runs (trace s') 1 = 1 \<and>
                memory s' = (if OK \<le> - 2 then (memory t)(r := results_buf k) else memory t)))"
    by (elim exE conjE) (intro exI conjI, assumption+)
  then obtain t' where t': "origin_step demo_world t = Inr t'" "callback_runs (trace t') 1 = 1"
    "memory t' = memory t"
    using oc by (auto simp add: OK_def)
  have B: "\<exists>s j s'. exec demo_world [Call (CallGetProxyForURL ''bad'' 7 (Some 3)), WorkerStep] (init_state demo_memory) = Inr s \<and>
       origin_loop s = [(1, - 2)] \<and> jobs s 1 = Some j \<and> callback j = Some 3 \<and>
       results j = Some 7 \<and> memory s 7 = ''old'' \<and>
       origin_step demo_world s = Inr s' \<and> callback_runs (trace s') 1 = 1 \<and>
       memory s' = memory s \<and> memory s' 7 = ''old''"
    using t t' by (intro exI[of _ t] exI[of _ k] exI[of _ t']) simp
  show ?thesis using A B by blast
qed


theorem completion_rechecks_cancellation_witness:
  "(\<exists>s j s2 j2. exec destroying_world [Call (CallGetProxyForURL ''a'' 7 (Some 3)), Call (CallGetProxyForURL ''b'' 8 (Some 4)), WorkerStep] (init_state demo_memory) = Inr s \<and>
       origin_loop s = [(1, 0)] \<and> jobs s 1 = Some j \<and> callback j = Some 3 \<and>
       pending_jobs s = [1, 2] \<and>
       origin_step destroying_world s = Inr s2 \<and> destroyed s2 \<and>
       jobs s2 1 = Some j2 \<and> was_cancelled j2) \<and>
   (\<exists>s j s1 s2 s'. exec demo_world [Call (CallGetProxyForURL ''a'' 7 (Some 3)), Call (CallGetProxyForURL ''b'' 8 (Some 4)), WorkerStep] (init_state demo_memory) = Inr s \<and>
       origin_loop s = [(1, 0)] \<and> jobs s 1 = Some j \<and> callback j = Some 3 \<and>
       Results_Use 1 j (s\<lparr>origin_loop := []\<rparr>) = Inr s1 \<and>
       Callback_Run demo_world 1 3 0 s1 = Inr s2 \<and>
       pending_jobs s2 = [1, 2] \<and> worker_loop s2 = [] \<and>
       origin_step demo_world s = Inr s' \<and>
       pending_jobs s' = [2] \<and> worker_loop s' = [DoQuery 2] \<and>
       trace s' = trace s2 @ [EvAdvance 1, EvJobStart 2])"
proof -
  have "\<exists>s j. exec destroying_world [Call (CallGetProxyForURL ''a'' 7 (Some 3)), Call (CallGetProxyForURL ''b'' 8 (Some 4)), WorkerStep] (init_state demo_memory) = Inr s \<and>
       origin_loop s = [(1, 0)] \<and> jobs s 1 = Some j \<and> callback j = Some 3 \<and>
       pending_jobs s = [1, 2]"
    by (simp add: run_defs)
  then obtain s j where s:
    "exec destroying_world [Call (CallGetProxyForURL ''a'' 7 (Some 3)), Call (CallGetProxyForURL ''b'' 8 (Some 4)), WorkerStep] (init_state demo_memory) = Inr s"
    "origin_loop s = [(1, 0)]" "jobs s 1 = Some j" "callback j = Some 3"
    "pending_jobs s = [1, 2]" by blast
  have E: "\<forall>log u. fst (engine destroying_world log u) \<noteq> ERR_IO_PENDING"
    by (simp add: destroying_world_def ERR_IO_PENDING_def)
  have oc: "on_complete destroying_world 3 0 = [CallDestroy]"
    by (simp add: destroying_world_def)
  from completion_rechecks_cancellation[OF s(1,2,3,4)] E oc
  obtain s2 j2 where "origin_step destroying_world s = Inr s2" "destroyed s2"
    "jobs s2 1 = Some j2" "was_cancelled j2" by blast
  with s have A: "\<exists>s j s2 j2. exec destroying_world [Call (CallGetProxyForURL ''a'' 7 (Some 3)), Call (CallGetProxyForURL ''b'' 8 (Some 4)), WorkerStep] (init_state demo_memory) = Inr s \<and>
       origin_loop s = [(1, 0)] \<and> jobs s 1 = Some j \<and> callback j = Some 3 \<and>
       pending_jobs s = [1, 2] \<and>
       origin_step destroying_world s = Inr s2 \<and> destroyed s2 \<and>
       jobs s2 1 = Some j2 \<and> was_cancelled j2" by blast
  have "\<exists>s j s1 s2 j2. exec demo_world [Call (CallGetProxyForURL ''a'' 7 (Some 3)), Call (CallGetProxyForURL ''b'' 8 (Some 4)), WorkerStep] (init_state demo_memory) = Inr s \<and>
       origin_loop s = [(1, 0)] \<and> jobs s 1 = Some j \<and> callback j = Some 3 \<and>
       Results_Use 1 j (s\<lparr>origin_loop := []\<rparr>) = Inr s1 \<and>
       Callback_Run demo_world 1 3 0 s1 = Inr s2 \<and> jobs s2 1 = Some j2 \<and>
       \<not> was_cancelled j2 \<and> pending_jobs s2 = [1, 2] \<and> worker_loop s2 = [] \<and>
       thread_started s2"
    by (simp add: run_defs)
  then obtain t k t1 t2 k2 where t:
    "exec demo_world [Call (CallGetProxyForURL ''a'' 7 (Some 3)), Call (CallGetProxyForURL ''b'' 8 (Some 4)), WorkerStep] (init_state demo_memory) = Inr t"
    "origin_loop t = [(1, 0)]" "jobs t 1 = Some k" "callback k = Some 3"
    "Results_Use 1 k (t\<lparr>origin_loop := []\<rparr>) = Inr t1"
    "Callback_Run demo_world 1 3 0 t1 = Inr t2" "jobs t2 1 = Some k2"
    "\<not> was_cancelled k2" "pending_jobs t2 = [1, 2]" "worker_loop t2 = []"
    "thread_started t2" by blast
  have slot: "(if OK \<le> 0 then Results_Use 1 k (t\<lparr>origin_loop := []\<rparr>)
         else Inr (t\<lparr>origin_loop := []\<rparr>)) = Inr t1"
    using t(5) by (simp add: OK_def)
  from completion_rechecks_cancellation[OF t(1,2,3,4), THEN conjunct2, THEN conjunct1, rule_format, OF slot t(6)]
  obtain k2' where k2': "jobs t2 1 = Some k2'"
    "\<not> was_cancelled k2' \<longrightarrow>
       coordinator k2' \<and> \<not> destroyed t2 \<and> pending_jobs t2 \<noteq> [] \<and> hd (pending_jobs t2) = 1 \<and>
       (\<exists>s'. origin_step demo_world t = Inr s' \<and>
          RemoveFrontOfJobsQueueAndStartNext 1 (t2\<lparr>trace := trace t2 @ [EvAdvance 1]\<rparr>) = Inr s' \<and>
          pending_jobs s' = tl (pending_jobs t2) \<and>
          (tl (pending_jobs t2) = [] \<longrightarrow>
             trace s' = trace t2 @ [EvAdvance 1] \<and>
             worker_loop s' = worker_loop t2 \<and> jobs s' = jobs t2) \<and>
          (\<forall>n ns. tl (pending_jobs t2) = n # ns \<longrightarrow>
             (\<exists>jn. jobs t2 n = Some jn \<and> \<not> is_started jn \<and>
                jobs s' n = Some (jn\<lparr>is_started := True\<rparr>) \<and>
                worker_loop s' = worker_loop t2 @ [DoQuery n] \<and>
                thread_started s' \<and>
                trace s' = trace t2 @ [EvAdvance 1] @
                  (if thread_started t2 then [] else [EvThreadStart]) @
                  [EvJobStart n])))"
    by (elim exE conjE) (rule that, assumption+)
  have "k2' = k2" using k2'(1) t(7) by simp
  with k2'(2) t(8) obtain t' where t': "origin_step demo_world t = Inr t'"
    "pending_jobs t' = tl (pending_jobs t2)"
    "\<forall>n ns. tl (pending_jobs t2) = n # ns \<longrightarrow>
             (\<exists>jn. jobs t2 n = Some jn \<and> \<not> is_started jn \<and>
                jobs t' n = Some (jn\<lparr>is_started := True\<rparr>) \<and>
                worker_loop t' = worker_loop t2 @ [DoQuery n] \<and>
                thread_started t' \<and>
                trace t' = trace t2 @ [EvAdvance 1] @
                  (if thread_started t2 then [] else [EvThreadStart]) @
                  [EvJobStart n])"
    by blast
  have tl: "tl (pending_jobs t2) = 2 # []" using t(9) by simp
  from t'(3)[rule_format, OF tl] have "worker_loop t' = worker_loop t2 @ [DoQuery 2]"
    "trace t' = trace t2 @ [EvAdvance 1] @
               (if thread_started t2 then [] else [EvThreadStart]) @ [EvJobStart 2]"
    by blast+
  then have w: "worker_loop t' = [DoQuery 2]" "trace t' = trace t2 @ [EvAdvance 1, EvJobStart 2]"
    "pending_jobs t' = [2]"
    using t(10,11) t'(2) tl by simp_all
  have B: "\<exists>s j s1 s2 s'. exec demo_world [Call (CallGetProxyForURL ''a'' 7 (Some 3)), Call (CallGetProxyForURL ''b'' 8 (Some 4)), WorkerStep] (init_state demo_memory) = Inr s \<and>
       origin_loop s = [(1, 0)] \<and> jobs s 1 = Some j \<and> callback j = Some 3 \<and>
       Results_Use 1 j (s\<lparr>origin_loop := []\<rparr>) = Inr s1 \<and>
       Callback_Run demo_world 1 3 0 s1 = Inr s2 \<and>
       pending_jobs s2 = [1, 2] \<and> worker_loop s2 = [] \<and>
       origin_step demo_world s = Inr s' \<and>
       pending_jobs s' = [2] \<and> worker_loop s' = [DoQuery 2] \<and>
       trace s' = trace s2 @ [EvAdvance 1, EvJobStart 2]"
    using t t'(1) w
    by (intro exI[of _ t] exI[of _ k] exI[of _ t1] exI[of _ t2] exI[of _ t']) simp
  show ?thesis using A B by blast
qed




theorem worker_started_lazily_once_witness:
  "\<exists>s. exec demo_world [Call (CallGetProxyForURL ''a'' 7 (Some 3)), Call (CallGetProxyForURL ''b'' 8 (Some 4))] (init_state demo_memory) = Inr s \<and> thread_started s \<and>
       count_list (trace s) EvThreadStart = 1 \<and> \<not> destroyed s \<and> EnsureThreadStarted s = s"
proof -
  have "\<exists>s. exec demo_world [Call (CallGetProxyForURL ''a'' 7 (Some 3)), Call (CallGetProxyForURL ''b'' 8 (Some 4))] (init_state demo_memory) = Inr s \<and> thread_started s"
    by (simp add: run_defs)
  then obtain s where s: "exec demo_world [Call (CallGetProxyForURL ''a'' 7 (Some 3)), Call (CallGetProxyForURL ''b'' 8 (Some 4))] (init_state demo_memory) = Inr s"
    "thread_started s" by blast
  from worker_started_lazily_once[OF s(1)] s(2)
  have "count_list (trace s) EvThreadStart = 1" "\<not> destroyed s" "EnsureThreadStarted s = s"
    by blast+
  with s show ?thesis by blast
qed

theorem cancelled_iff_cancel_called_witness:
  "\<exists>s j. exec demo_world [Call (CallGetProxyForURL ''a'' 7 (Some 3)), Call (CallCancelRequest 1)] (init_state demo_memory) = Inr s \<and>
       jobs s 1 = Some j \<and> was_cancelled j \<and> EvJobCancel 1 \<in> set (trace s)"
proof -
  have "\<exists>s j. exec demo_world [Call (CallGetProxyForURL ''a'' 7 (Some 3)), Call (CallCancelRequest 1)] (init_state demo_memory) = Inr s \<and>
       jobs s 1 = Some j \<and> was_cancelled j"
    by (simp add: run_defs)
  then obtain s j where
    s: "exec demo_world [Call (CallGetProxyForURL ''a'' 7 (Some 3)), Call (CallCancelRequest 1)] (init_state demo_memory) = Inr s"
    "jobs s 1 = Some j" "was_cancelled j" by blast
  from cancelled_iff_cancel_called[OF s(1,2)] s(3)
  have "EvJobCancel 1 \<in> set (trace s)" by blast
  with s show ?thesis by blast
qed

end
